theory Spec2Isabelle
  imports Complex_Main
begin

section \<open>Data model\<close>

text \<open>
  The transcription application (\<^verbatim>\<open>transcribe_gui.py\<close>) works on word tokens with
  time stamps, on speaker-labelled time intervals and on transcript segments. Times are
  Python floats; they are taken here as real numbers, so every comparison and every midpoint
  \<open>(start + end) / 2\<close> is exact. A speaker attribute that is \<^verbatim>\<open>None\<close> is \<open>None\<close>.
  Strings are lists of 8-bit characters.
\<close>

record word =
  w_text :: string
  w_start :: real
  w_end :: real
  w_speaker :: "string option"

text \<open>
  A segment is either one of the transcription model's segments (with its words, and no
  speaker) or a \<^verbatim>\<open>SegmentWithSpeaker\<close> built by re-segmentation (text, start, end,
  speaker, and no \<^verbatim>\<open>words\<close> attribute). An absent, \<^verbatim>\<open>None\<close> or empty
  \<^verbatim>\<open>words\<close> is the empty list: the source tests all three with
  \<^verbatim>\<open>not hasattr(segment, 'words') or not segment.words\<close>.
\<close>

record segment =
  seg_text :: string
  seg_start :: real
  seg_end :: real
  seg_speaker :: "string option"
  seg_words :: "word list"

definition SegmentWithSpeaker :: "string \<Rightarrow> real \<Rightarrow> real \<Rightarrow> string option \<Rightarrow> segment" where
  "SegmentWithSpeaker text start end' speaker =
     \<lparr>seg_text = text, seg_start = start, seg_end = end', seg_speaker = speaker, seg_words = []\<rparr>"

section \<open>Strings\<close>

text \<open>
  \<^verbatim>\<open>str.isspace\<close> on the ASCII range: tab, line feed, vertical tab, form feed, carriage
  return, the four separators \<^verbatim>\<open>\x1c\<close> to \<^verbatim>\<open>\x1f\<close>, and the space.
\<close>

definition isspace :: "char \<Rightarrow> bool" where
  "isspace c = (let n = (of_char c :: nat) in (9 \<le> n \<and> n \<le> 13) \<or> (28 \<le> n \<and> n \<le> 32))"

text \<open>\<^verbatim>\<open>s.strip()\<close>: leading and trailing white space removed.\<close>

definition strip :: "string \<Rightarrow> string" where
  "strip s = rev (dropWhile isspace (rev (dropWhile isspace s)))"

text \<open>\<^verbatim>\<open>' '.join(xs)\<close>.\<close>

fun join_space :: "string list \<Rightarrow> string" where
  "join_space [] = []"
| "join_space [x] = x"
| "join_space (x # y # zs) = x @ '' '' @ join_space (y # zs)"

section \<open>Re-segmentation on speaker changes\<close>

text \<open>
  The loop of \<^verbatim>\<open>transcribe_file\<close> that regroups \<^verbatim>\<open>all_words\<close> (lines 1218 to
  1248). Its variables are the fields of the loop state.
\<close>

record reseg_state =
  new_segments :: "segment list"
  current_speaker :: "string option"
  current_words :: "word list"
  current_start :: real

text \<open>
  Closing the accumulated run:
  \<^verbatim>\<open>text = ' '.join([w.word.strip() for w in current_words])\<close>,
  \<^verbatim>\<open>end_time = current_words[-1].end\<close>. Both call sites guard it with a non-empty
  \<^verbatim>\<open>current_words\<close>.
\<close>

definition close_run :: "reseg_state \<Rightarrow> segment" where
  "close_run s =
     SegmentWithSpeaker (join_space (map (\<lambda>w. strip (w_text w)) (current_words s)))
       (current_start s) (w_end (last (current_words s))) (current_speaker s)"

definition reseg_step :: "reseg_state \<Rightarrow> word \<Rightarrow> reseg_state" where
  "reseg_step s w =
     (if w_speaker w \<noteq> current_speaker s \<and> current_words s \<noteq> [] then
        s\<lparr>new_segments := new_segments s @ [close_run s],
          current_words := [w],
          current_start := w_start w,
          current_speaker := w_speaker w\<rparr>
      else if current_words s = [] then
        s\<lparr>current_speaker := w_speaker w, current_words := current_words s @ [w]\<rparr>
      else
        s\<lparr>current_words := current_words s @ [w]\<rparr>)"

definition reseg_finish :: "reseg_state \<Rightarrow> segment list" where
  "reseg_finish s =
     (if current_words s \<noteq> [] then new_segments s @ [close_run s] else new_segments s)"

definition resegment :: "word list \<Rightarrow> segment list" where
  "resegment all_words =
     reseg_finish (foldl reseg_step
       \<lparr>new_segments = [], current_speaker = None, current_words = [],
        current_start = (if all_words \<noteq> [] then w_start (hd all_words) else 0)\<rparr>
       all_words)"

subsection \<open>Maximal runs of equal speaker\<close>

text \<open>
  The specification's side of the comparison: the maximal runs of consecutive words with
  one speaker label, and the segment the specification gives to a run.
\<close>

function runs :: "word list \<Rightarrow> word list list" where
  "runs [] = []"
| "runs (w # ws) =
     (w # takeWhile (\<lambda>v. w_speaker v = w_speaker w) ws)
       # runs (dropWhile (\<lambda>v. w_speaker v = w_speaker w) ws)"
  by pat_completeness auto
termination
  by (relation "measure length") (auto simp: less_Suc_eq_le length_dropWhile_le)

definition segment_of_run :: "word list \<Rightarrow> segment" where
  "segment_of_run r =
     \<lparr>seg_text = join_space (map (\<lambda>w. strip (w_text w)) r),
      seg_start = w_start (hd r), seg_end = w_end (last r),
      seg_speaker = w_speaker (hd r), seg_words = []\<rparr>"

definition no_space :: "string \<Rightarrow> string" where
  "no_space s = filter (\<lambda>c. \<not> isspace c) s"

section \<open>Integer formatting\<close>

text \<open>
  The format specification \<^verbatim>\<open>{n:02d}\<close> of Python's f-strings: the decimal digits of
  \<open>n\<close>, a minus sign in front when \<open>n\<close> is negative, zeros added after the sign until
  the whole field is two characters wide.
\<close>

definition digit_char :: "nat \<Rightarrow> char" where
  "digit_char d = ''0123456789'' ! d"

function str_nat :: "nat \<Rightarrow> string" where
  "str_nat n = (if n < 10 then [digit_char n] else str_nat (n div 10) @ [digit_char (n mod 10)])"
  by pat_completeness auto
termination
  by (relation "measure id") auto

declare str_nat.simps [simp del]

definition fmt_02d :: "int \<Rightarrow> string" where
  "fmt_02d n =
     (if n < 0 then CHR ''-'' # str_nat (nat (- n))
      else replicate (2 - length (str_nat (nat n))) CHR ''0'' @ str_nat (nat n))"

section \<open>Time stamps of the output\<close>

text \<open>
  Python's \<^verbatim>\<open>//\<close> and \<^verbatim>\<open>%\<close> on floats (the quotient rounded down, and the
  remainder that goes with it), and \<^verbatim>\<open>int(x)\<close>, which drops the fraction towards zero.
\<close>

definition py_floordiv :: "real \<Rightarrow> real \<Rightarrow> real" where
  "py_floordiv x y = of_int \<lfloor>x / y\<rfloor>"

definition py_mod :: "real \<Rightarrow> real \<Rightarrow> real" where
  "py_mod x y = x - y * of_int \<lfloor>x / y\<rfloor>"

definition py_int :: "real \<Rightarrow> int" where
  "py_int x = (if 0 \<le> x then \<lfloor>x\<rfloor> else \<lceil>x\<rceil>)"

text \<open>\<^verbatim>\<open>format_timestamp\<close> (lines 1419 to 1423).\<close>

definition format_timestamp :: "real \<Rightarrow> string" where
  "format_timestamp seconds =
     (let hours = py_int (py_floordiv seconds 3600);
          minutes = py_int (py_floordiv (py_mod seconds 3600) 60);
          secs = py_int (py_mod seconds 60)
      in fmt_02d hours @ '':'' @ fmt_02d minutes @ '':'' @ fmt_02d secs)"

section \<open>Speaker turns and assignment by containment\<close>

text \<open>
  A speaker turn of the external diarization pipeline: the triples
  \<^verbatim>\<open>(turn, _, spk)\<close> of \<^verbatim>\<open>itertracks(yield_label=True)\<close> in
  \<^verbatim>\<open>transcribe_gui.py\<close>, the dictionaries \<^verbatim>\<open>{'start', 'end', 'speaker'}\<close> in
  \<^verbatim>\<open>scripts/dev/test_pyannote.py\<close>.
\<close>

record turn =
  turn_start :: real
  turn_end :: real
  turn_speaker :: string

text \<open>
  The inner loop of \<^verbatim>\<open>transcribe_file\<close> (lines 1331 to 1337, and 1317 to 1321 for a
  segment without words): \<^verbatim>\<open>word_speaker = None\<close>, then the first turn with
  \<^verbatim>\<open>turn.start <= word_mid <= turn.end\<close> sets it and breaks.
\<close>

fun find_speaker :: "turn list \<Rightarrow> real \<Rightarrow> string option" where
  "find_speaker [] mid = None"
| "find_speaker (t # ts) mid =
     (if turn_start t \<le> mid \<and> mid \<le> turn_end t then Some (turn_speaker t)
      else find_speaker ts mid)"

definition word_mid :: "word \<Rightarrow> real" where
  "word_mid w = (w_start w + w_end w) / 2"

text \<open>
  \<^verbatim>\<open>assign_speakers_to_words\<close> of \<^verbatim>\<open>test_pyannote.py\<close> (lines 178 to 196): the
  word's speaker is set to \<^verbatim>\<open>'UNKNOWN'\<close> and overwritten by the first segment whose
  interval contains the word's centre.
\<close>

fun scan_speaker_segments :: "string \<Rightarrow> turn list \<Rightarrow> real \<Rightarrow> string" where
  "scan_speaker_segments speaker [] word_center = speaker"
| "scan_speaker_segments speaker (seg # segs) word_center =
     (if turn_start seg \<le> word_center \<and> word_center \<le> turn_end seg then turn_speaker seg
      else scan_speaker_segments speaker segs word_center)"

definition assign_speakers_to_words :: "word list \<Rightarrow> turn list \<Rightarrow> word list" where
  "assign_speakers_to_words words speaker_segments =
     map (\<lambda>w. w\<lparr>w_speaker :=
            Some (scan_speaker_segments ''UNKNOWN'' speaker_segments ((w_start w + w_end w) / 2))\<rparr>)
       words"

text \<open>The closed interval of a turn contains a time.\<close>

definition turn_contains :: "turn \<Rightarrow> real \<Rightarrow> bool" where
  "turn_contains t m \<longleftrightarrow> turn_start t \<le> m \<and> m \<le> turn_end t"

section \<open>Reading decimal fields back\<close>

text \<open>
  The number a string of decimal digits stands for. It is the inverse of the formatting
  above and is used to state what a formatted field denotes.
\<close>

definition digit_value :: "char \<Rightarrow> nat" where
  "digit_value c = of_char c - 48"

definition nat_of_digits :: "string \<Rightarrow> nat" where
  "nat_of_digits s = foldl (\<lambda>a c. 10 * a + digit_value c) 0 s"

section \<open>Re-segmentation against speaker turns\<close>

text \<open>
  The loop of \<^verbatim>\<open>transcribe_file\<close> that re-segments with the turns of the external
  pipeline (lines 1311 to 1363). It runs over the transcription segments. A segment
  without words is matched as a whole, by its own midpoint. A segment with words runs the
  speaker-change loop over its own words, from a fresh \<^verbatim>\<open>current_speaker\<close>,
  \<^verbatim>\<open>current_words\<close> and \<^verbatim>\<open>current_start\<close>, and closes its last run before the
  next segment is looked at; \<^verbatim>\<open>new_segments\<close> is the one list all segments append to.
\<close>

definition turn_step :: "turn list \<Rightarrow> reseg_state \<Rightarrow> word \<Rightarrow> reseg_state" where
  "turn_step speaker_turns s w =
     (let word_speaker = find_speaker speaker_turns (word_mid w) in
      if word_speaker \<noteq> current_speaker s \<and> current_words s \<noteq> [] then
        s\<lparr>new_segments := new_segments s @ [close_run s],
          current_words := [w],
          current_start := w_start w,
          current_speaker := word_speaker\<rparr>
      else if current_words s = [] then
        s\<lparr>current_speaker := word_speaker, current_words := current_words s @ [w]\<rparr>
      else
        s\<lparr>current_words := current_words s @ [w]\<rparr>)"

definition turn_segment_step :: "turn list \<Rightarrow> segment list \<Rightarrow> segment \<Rightarrow> segment list" where
  "turn_segment_step speaker_turns new_segs seg =
     (if seg_words seg = [] then
        new_segs @ [SegmentWithSpeaker (seg_text seg) (seg_start seg) (seg_end seg)
          (find_speaker speaker_turns ((seg_start seg + seg_end seg) / 2))]
      else
        reseg_finish (foldl (turn_step speaker_turns)
          \<lparr>new_segments = new_segs, current_speaker = None, current_words = [],
           current_start = w_start (hd (seg_words seg))\<rparr>
          (seg_words seg)))"

definition turn_resegment :: "turn list \<Rightarrow> segment list \<Rightarrow> segment list" where
  "turn_resegment speaker_turns segments_list =
     foldl (turn_segment_step speaker_turns) [] segments_list"

subsection \<open>Resolving the labels first\<close>

text \<open>
  The specification's reading of the turn variant: every word gets the speaker that
  containment gives it, and the merge rule of the word-label loop is applied afterwards.
\<close>

definition label_words :: "turn list \<Rightarrow> word list \<Rightarrow> word list" where
  "label_words speaker_turns ws =
     map (\<lambda>w. w\<lparr>w_speaker := find_speaker speaker_turns (word_mid w)\<rparr>) ws"

definition resolve_then_merge :: "turn list \<Rightarrow> segment list \<Rightarrow> segment list" where
  "resolve_then_merge speaker_turns segments_list =
     resegment (label_words speaker_turns (concat (map seg_words segments_list)))"

definition resolve_then_merge_segment :: "turn list \<Rightarrow> segment \<Rightarrow> segment list" where
  "resolve_then_merge_segment speaker_turns seg =
     (if seg_words seg = [] then
        [SegmentWithSpeaker (seg_text seg) (seg_start seg) (seg_end seg)
          (find_speaker speaker_turns ((seg_start seg + seg_end seg) / 2))]
      else resegment (label_words speaker_turns (seg_words seg)))"

section \<open>Errors\<close>

text \<open>
  Exceptions are values. \<open>ExternalError\<close> stands for whatever an external call raises
  (audio decoding, resampling, the clustering, the diarization pipeline, the transcription
  model, opening the output file).
\<close>

datatype exn = IndexError | ValueError | ExternalError

section \<open>Sliding windows and their embeddings\<close>

text \<open>
  A window of the embedding diarizer is the dictionary
  \<^verbatim>\<open>{'word_indices', 'start', 'end'}\<close>; clustering adds the key \<^verbatim>\<open>'speaker'\<close>.
\<close>

record seg_info =
  word_indices :: "nat list"
  si_start :: real
  si_end :: real

record lseg_info = seg_info +
  si_speaker :: string

text \<open>
  The \<^verbatim>\<open>while current_time < total_duration\<close> loop (lines 1105 to 1124), with
  \<^verbatim>\<open>WINDOW_SIZE = 1.0\<close> and \<^verbatim>\<open>WINDOW_STRIDE = 0.5\<close>: the window
  \<open>[current_time, min (current_time + 1) total_duration)\<close> takes the indices of the words
  whose centre lies in it, and is kept when it has any.
\<close>

function sliding_windows :: "word list \<Rightarrow> real \<Rightarrow> real \<Rightarrow> seg_info list" where
  "sliding_windows all_words total_duration current_time =
     (if current_time < total_duration then
        (let window_start = current_time;
             window_end = min (current_time + 1) total_duration;
             window_word_indices =
               filter (\<lambda>i. window_start \<le> word_mid (all_words ! i)
                            \<and> word_mid (all_words ! i) < window_end)
                 [0 ..< length all_words]
         in (if window_word_indices \<noteq> [] then
               [\<lparr>word_indices = window_word_indices, si_start = window_start,
                 si_end = window_end\<rparr>]
             else [])
            @ sliding_windows all_words total_duration (current_time + 1 / 2))
      else [])"
  by pat_completeness auto
termination
proof (relation "measure (\<lambda>(ws, total, t). nat \<lceil>2 * (total - t)\<rceil>)")
  show "wf (measure (\<lambda>(ws, total, t). nat \<lceil>2 * (total - t)\<rceil>))" by simp
next
  fix all_words :: "word list" and total_duration current_time :: real
  assume lt: "current_time < total_duration"
  have "2 * (total_duration - (current_time + 1 / 2)) = 2 * (total_duration - current_time) - 1"
    by simp
  then have "\<lceil>2 * (total_duration - (current_time + 1 / 2))\<rceil> = \<lceil>2 * (total_duration - current_time)\<rceil> - 1"
    by (simp only: ceiling_diff_one)
  moreover from lt have "0 < \<lceil>2 * (total_duration - current_time)\<rceil>" by simp
  ultimately show "((all_words, total_duration, current_time + 1 / 2),
      (all_words, total_duration, current_time))
    \<in> measure (\<lambda>(ws, total, t). nat \<lceil>2 * (total - t)\<rceil>)"
    by simp
qed

declare sliding_windows.simps [simp del]

text \<open>
  The extraction loop (lines 1132 to 1156). The embedding model is external: \<open>extract\<close>
  gives the normalised embedding of a window, or \<open>None\<close> when the extraction raises or
  the embedding holds a NaN; in both cases the window is skipped.
  \<^verbatim>\<open>valid_embeddings\<close> and \<^verbatim>\<open>valid_segments\<close> are appended to together, so they
  are the two components of one list of pairs.
\<close>

definition valid_pairs :: "(seg_info \<Rightarrow> 'e option) \<Rightarrow> seg_info list \<Rightarrow> ('e \<times> seg_info) list" where
  "valid_pairs extract segments_for_embedding =
     List.map_filter (\<lambda>seg. map_option (\<lambda>e. (e, seg)) (extract seg)) segments_for_embedding"

section \<open>Clustering and window labels\<close>

text \<open>
  \<^verbatim>\<open>num_speakers = self._num_speakers if self._num_speakers > 0 else 2\<close>, then
  \<^verbatim>\<open>min(num_speakers, len(valid_embeddings))\<close>.
\<close>

definition num_clusters :: "int \<Rightarrow> nat \<Rightarrow> int" where
  "num_clusters requested n_valid =
     (let num_speakers = (if requested > 0 then requested else 2)
      in min num_speakers (int n_valid))"

text \<open>The label \<^verbatim>\<open>f"SPEAKER_{speaker_ids[i]:02d}"\<close> of a cluster id.\<close>

definition speaker_label :: "nat \<Rightarrow> string" where
  "speaker_label cluster_id = ''SPEAKER_'' @ fmt_02d (int cluster_id)"

text \<open>
  \<^verbatim>\<open>for i, seg_info in enumerate(valid_segments): seg_info['speaker'] = ...\<close>; an
  array of ids shorter than the list of windows raises \<^verbatim>\<open>IndexError\<close>.
\<close>

definition label_windows :: "seg_info list \<Rightarrow> nat list \<Rightarrow> exn + lseg_info list" where
  "label_windows valid_segments speaker_ids =
     (if length speaker_ids < length valid_segments then Inl IndexError
      else Inr (map (\<lambda>(seg, cluster_id). seg_info.extend seg
                       (lseg_info.fields (speaker_label cluster_id)))
                 (zip valid_segments speaker_ids)))"

text \<open>
  Lines 1166 to 1184. The clustering primitive
  (\<^verbatim>\<open>AgglomerativeClustering(n_clusters, metric='cosine', linkage='average').fit_predict\<close>)
  is external: \<open>fit_predict\<close> gives the cluster id of every embedding, or \<open>None\<close> when it
  raises.
\<close>

definition cluster_windows ::
  "('e list \<Rightarrow> int \<Rightarrow> nat list option) \<Rightarrow> int \<Rightarrow> ('e \<times> seg_info) list \<Rightarrow> exn + lseg_info list" where
  "cluster_windows fit_predict requested valid =
     (case fit_predict (map fst valid) (num_clusters requested (length valid)) of
        None \<Rightarrow> Inl ExternalError
      | Some speaker_ids \<Rightarrow> label_windows (map snd valid) speaker_ids)"

section \<open>Votes of the windows for a word\<close>

text \<open>
  \<^verbatim>\<open>collections.Counter\<close> over a list: a dictionary in insertion order, a key's count
  raised in place, a new key appended with count 1.
\<close>

definition counter_add :: "('a \<times> nat) list \<Rightarrow> 'a \<Rightarrow> ('a \<times> nat) list" where
  "counter_add c x =
     (if x \<in> fst ` set c then map (\<lambda>(k, n). if k = x then (k, n + 1) else (k, n)) c
      else c @ [(x, 1)])"

definition Counter :: "'a list \<Rightarrow> ('a \<times> nat) list" where
  "Counter xs = foldl counter_add [] xs"

text \<open>
  Python's \<^verbatim>\<open>max(iterable, key=...)\<close> and \<^verbatim>\<open>min(iterable, key=...)\<close> on a first
  item and the rest: the item kept changes only when the next one is strictly greater
  (strictly less), so the first of several equal items is returned.
  \<^verbatim>\<open>most_common(1)\<close> is \<^verbatim>\<open>heapq.nlargest(1, items, key=count)\<close>, which is that
  \<^verbatim>\<open>max\<close>.
\<close>

definition py_max_first :: "('a \<Rightarrow> 'k::linorder) \<Rightarrow> 'a \<Rightarrow> 'a list \<Rightarrow> 'a" where
  "py_max_first key x xs = foldl (\<lambda>best y. if key best < key y then y else best) x xs"

definition py_min_first :: "('a \<Rightarrow> 'k::linorder) \<Rightarrow> 'a \<Rightarrow> 'a list \<Rightarrow> 'a" where
  "py_min_first key x xs = foldl (\<lambda>best y. if key y < key best then y else best) x xs"

text \<open>The votes for a word: the labels of the windows whose indices hold the word's.\<close>

definition speaker_votes :: "lseg_info list \<Rightarrow> nat \<Rightarrow> string list" where
  "speaker_votes valid_segments word_idx =
     map si_speaker (filter (\<lambda>seg. word_idx \<in> set (word_indices seg)) valid_segments)"

text \<open>The distance the fallback minimises: window centre to word centre.\<close>

definition center_distance :: "word \<Rightarrow> lseg_info \<Rightarrow> real" where
  "center_distance w s = \<bar>(si_start s + si_end s) / 2 - (w_start w + w_end w) / 2\<bar>"

text \<open>
  The body of the loop over \<^verbatim>\<open>enumerate(all_words)\<close> (lines 1189 to 1208): the
  speaker a word receives. \<^verbatim>\<open>most_common(1)[0]\<close> on an empty counter and
  \<^verbatim>\<open>min\<close> on an empty list would raise.
\<close>

definition assign_word :: "lseg_info list \<Rightarrow> nat \<Rightarrow> word \<Rightarrow> exn + string" where
  "assign_word valid_segments word_idx w =
     (let votes = speaker_votes valid_segments word_idx in
      if votes \<noteq> [] then
        (case Counter votes of
           [] \<Rightarrow> Inl IndexError
         | c # cs \<Rightarrow> Inr (fst (py_max_first snd c cs)))
      else if valid_segments = [] then Inr ''SPEAKER_00''
      else
        (case valid_segments of
           [] \<Rightarrow> Inl ValueError
         | s # ss \<Rightarrow> Inr (si_speaker (py_min_first (center_distance w) s ss))))"

fun vote_words :: "lseg_info list \<Rightarrow> nat \<Rightarrow> word list \<Rightarrow> exn + word list" where
  "vote_words valid_segments word_idx [] = Inr []"
| "vote_words valid_segments word_idx (w # ws) =
     (case assign_word valid_segments word_idx w of
        Inl e \<Rightarrow> Inl e
      | Inr speaker \<Rightarrow>
          (case vote_words valid_segments (Suc word_idx) ws of
             Inl e \<Rightarrow> Inl e
           | Inr ws' \<Rightarrow> Inr (w\<lparr>w_speaker := Some speaker\<rparr> # ws')))"

section \<open>The embedding diarizer\<close>

text \<open>What the embedding diarizer takes from outside, for one file.\<close>

record 'e wavlm_ext =
  audio_ok :: bool
  extract_embedding :: "seg_info \<Rightarrow> 'e option"
  clustering :: "'e list \<Rightarrow> int \<Rightarrow> nat list option"

text \<open>
  Lines 1085 to 1208, entered with a non-empty \<^verbatim>\<open>all_words\<close>: load the audio
  (\<open>audio_ok\<close> is false when loading or resampling raises), build the windows, extract
  the embeddings, and then either give every word \<^verbatim>\<open>SPEAKER_00\<close> (fewer than two
  valid embeddings) or cluster and vote.
\<close>

definition wavlm_label :: "'e wavlm_ext \<Rightarrow> int \<Rightarrow> word list \<Rightarrow> exn + word list" where
  "wavlm_label ext requested all_words =
     (if \<not> audio_ok ext then Inl ExternalError
      else
        (let total_duration = (if all_words \<noteq> [] then w_end (last all_words) else 0);
             segments_for_embedding = sliding_windows all_words total_duration 0;
             valid = valid_pairs (extract_embedding ext) segments_for_embedding
         in if length valid < 2 then
              Inr (map (\<lambda>w. w\<lparr>w_speaker := Some ''SPEAKER_00''\<rparr>) all_words)
            else
              (case cluster_windows (clustering ext) requested valid of
                 Inl e \<Rightarrow> Inl e
               | Inr valid_segments \<Rightarrow> vote_words valid_segments 0 all_words)))"

subsection \<open>Order of first occurrence\<close>

text \<open>The distinct elements of a list in the order in which they first occur.\<close>

definition first_seen :: "'a list \<Rightarrow> 'a list" where
  "first_seen xs = rev (remdups (rev xs))"

section \<open>The worker: events, configuration and what comes from outside\<close>

text \<open>
  The worker thread of \<^verbatim>\<open>process_files\<close> is modelled by the sequence of its
  observable actions. \<open>CheckStop b\<close> is a read of \<^verbatim>\<open>self.stop_requested\<close> that
  returned \<open>b\<close>; \<open>StatusTranscribing i total name\<close> is the status line
  \<^verbatim>\<open>Transcribing i of total: name\<close> that opens a file's run; \<open>Acquire\<close> and
  \<open>Release\<close> are entering and leaving \<^verbatim>\<open>with self.progress_lock\<close>;
  \<open>SetProgress\<close> and \<open>SetProcessed\<close> are the assignments to
  \<^verbatim>\<open>self.current_progress\<close> and \<^verbatim>\<open>self.processed_segments\<close>;
  \<open>RunWavLM\<close> and \<open>RunPyannote\<close> mark the entry into the two diarizers' \<^verbatim>\<open>try\<close>
  blocks; \<open>WriteOutput path body\<close> is the output file written; \<open>StatusError name\<close>
  is the status line \<^verbatim>\<open>Error transcribing name: ...\<close>; \<open>ReadProgress\<close> is the
  observer's read in \<^verbatim>\<open>poll_progress\<close>; \<open>ScheduleComplete\<close> is
  \<^verbatim>\<open>self.root.after(0, self.transcription_complete)\<close>; \<open>SetBar p\<close> is
  \<^verbatim>\<open>self.root.after(0, lambda p=progress_percent: self.progress.config(value=p))\<close>, an
  update of the progress bar widget, which is not the shared variable.
  \<^verbatim>\<open>print\<close> calls are left out.
\<close>

datatype event =
    CheckStop bool
  | StatusTranscribing nat nat string
  | Acquire
  | Release
  | SetProgress real
  | SetProcessed nat
  | RunWavLM
  | RunPyannote
  | WriteOutput string "string list"
  | StatusError string
  | ReadProgress
  | ScheduleComplete
  | SetBar int

text \<open>
  The attributes of the application that \<^verbatim>\<open>transcribe_file\<close> reads:
  \<^verbatim>\<open>self.wavlm_model and self.wavlm_feature_extractor\<close>,
  \<^verbatim>\<open>self.diarization_pipeline\<close>, \<^verbatim>\<open>self._num_speakers\<close>, and whether
  \<^verbatim>\<open>self._output_format\<close> is \<^verbatim>\<open>"with_timestamps"\<close>.
\<close>

record config =
  wavlm_loaded :: bool
  pipeline_loaded :: bool
  num_speakers :: int
  with_timestamps :: bool

text \<open>
  What one file's run takes from outside: the file's name and stem; whether
  \<^verbatim>\<open>self.model.transcribe\<close> raises; the segments its generator yields and whether the
  generator raises after them; \<^verbatim>\<open>info.duration\<close>; the embedding diarizer's
  collaborators; the turns of the external pipeline, \<open>None\<close> when anything in that
  \<^verbatim>\<open>try\<close> block raises; whether the output file can be opened for writing.
\<close>

record 'e file_input =
  fi_name :: string
  fi_stem :: string
  transcribe_raises :: bool
  stream :: "segment list"
  stream_raises :: bool
  duration :: real
  wavlm :: "'e wavlm_ext"
  pyannote :: "turn list option"
  open_ok :: bool

text \<open>
  The stop flag is set by the controlling thread (\<^verbatim>\<open>stop_transcription\<close>) and never
  cleared during a run. \<open>stop_at = Some n\<close> says that the request lands when the worker
  has done \<open>n\<close> actions; \<open>None\<close> that it never comes. A read at a time when \<open>clock\<close>
  actions are done sees the flag set from then on.
\<close>

definition stop_requested :: "nat option \<Rightarrow> nat \<Rightarrow> bool" where
  "stop_requested stop_at clock = (case stop_at of None \<Rightarrow> False | Some n \<Rightarrow> n \<le> clock)"

text \<open>\<^verbatim>\<open>with self.progress_lock: self.current_progress = p\<close>.\<close>

definition locked_progress :: "real \<Rightarrow> event list" where
  "locked_progress p = [Acquire, SetProgress p, Release]"

section \<open>Loading the diarizers\<close>

text \<open>
  Lines 936 to 973 of \<^verbatim>\<open>process_files\<close>. The result is the pair of
  \<^verbatim>\<open>self.wavlm_model\<close> (set together with the feature extractor) and
  \<^verbatim>\<open>self.diarization_pipeline\<close>, as truth values. \<open>prev_wavlm\<close> is what
  \<^verbatim>\<open>self.wavlm_model\<close> held before: the branch that does not try to load leaves it.
  The pipeline is loaded only when no embedding model is loaded and a non-empty token is
  given.
\<close>

definition load_diarizers ::
  "bool \<Rightarrow> bool \<Rightarrow> bool \<Rightarrow> bool \<Rightarrow> bool \<Rightarrow> bool \<Rightarrow> string \<Rightarrow> bool \<Rightarrow> bool \<times> bool" where
  "load_diarizers enable_diarization HAS_WAVLM use_wavlm wavlm_load_ok prev_wavlm
       HAS_DIARIZATION hf_token pipeline_load_ok =
     (if enable_diarization then
        (let wavlm_model = (if HAS_WAVLM \<and> use_wavlm then wavlm_load_ok else prev_wavlm);
             diarization_pipeline =
               (if \<not> wavlm_model \<and> HAS_DIARIZATION \<and> hf_token \<noteq> [] then pipeline_load_ok
                else False)
         in (wavlm_model, diarization_pipeline))
      else (False, False))"

section \<open>One file\<close>

subsection \<open>The transcription stage\<close>

datatype 'a loop_result = Stopped | Raised | Done 'a

text \<open>
  The loop \<^verbatim>\<open>for segment in segments\<close> (lines 1045 to 1058). The flag is read at the top
  of the body, once a segment has been fetched; a set flag returns from
  \<^verbatim>\<open>transcribe_file\<close> at once. When the generator is exhausted the loop ends, or the
  generator's exception leaves it. \<open>clock\<close> counts the worker's actions so far.
  \<open>take_segment\<close> is the rest of the body: the segment is appended (\<open>segments_list\<close>
  is the list after that) and, inside the lock, the count and the progress are set, the
  progress only for a positive \<^verbatim>\<open>total_duration\<close>.
\<close>

definition take_segment :: "real \<Rightarrow> segment list \<Rightarrow> segment \<Rightarrow> event list" where
  "take_segment total_duration segments_list seg =
     [Acquire, SetProcessed (length segments_list)]
       @ (if total_duration > 0
          then [SetProgress (min 95 (seg_end seg / total_duration * 100))] else [])
       @ [Release]"

fun segment_loop ::
  "nat option \<Rightarrow> nat \<Rightarrow> real \<Rightarrow> bool \<Rightarrow> segment list \<Rightarrow> segment list
     \<Rightarrow> event list \<times> segment list loop_result" where
  "segment_loop stop_at clock total_duration raises [] segments_list =
     ([], if raises then Raised else Done segments_list)"
| "segment_loop stop_at clock total_duration raises (seg # rest) segments_list =
     (if stop_requested stop_at clock then ([CheckStop True], Stopped)
      else
        (let segments_list' = segments_list @ [seg];
             evs = CheckStop False # take_segment total_duration segments_list' seg;
             r = segment_loop stop_at (clock + length evs) total_duration raises rest
                   segments_list'
         in (evs @ fst r, snd r)))"

subsection \<open>The diarization stage\<close>

text \<open>
  \<^verbatim>\<open>speaker_labels = {idx: seg.speaker for idx, seg in enumerate(segments_list) if seg.speaker}\<close>:
  a speaker that is \<^verbatim>\<open>None\<close> or the empty string is left out.
\<close>

definition speaker_labels_of :: "segment list \<Rightarrow> (nat \<times> string) list" where
  "speaker_labels_of segments_list =
     List.map_filter
       (\<lambda>(idx, seg). case seg_speaker seg of
                        None \<Rightarrow> None
                      | Some s \<Rightarrow> if s \<noteq> [] then Some (idx, s) else None)
       (enumerate 0 segments_list)"

record stage =
  st_events :: "event list"
  st_segments :: "segment list"
  st_labels :: "(nat \<times> string) list"

text \<open>
  Lines 1067 to 1260: the embedding diarizer, tried first when its models are loaded. Any
  exception inside leaves \<^verbatim>\<open>segments_list\<close> as it was and empties
  \<^verbatim>\<open>speaker_labels\<close>. \<^verbatim>\<open>all_words\<close> collects the words of the segments that have
  any.
\<close>

definition wavlm_stage :: "config \<Rightarrow> 'e file_input \<Rightarrow> segment list \<Rightarrow> stage" where
  "wavlm_stage cfg fi segments_list =
     (if wavlm_loaded cfg then
        (let all_words = concat (map seg_words segments_list) in
         if all_words \<noteq> [] then
           (case wavlm_label (wavlm fi) (num_speakers cfg) all_words of
              Inl e \<Rightarrow>
                \<lparr>st_events = [RunWavLM] @ locked_progress 96,
                 st_segments = segments_list, st_labels = []\<rparr>
            | Inr labelled \<Rightarrow>
                \<lparr>st_events = [RunWavLM] @ locked_progress 96 @ locked_progress 98,
                 st_segments = resegment labelled,
                 st_labels = speaker_labels_of (resegment labelled)\<rparr>)
         else
           \<lparr>st_events = [RunWavLM] @ locked_progress 96,
            st_segments = segments_list, st_labels = []\<rparr>)
      else \<lparr>st_events = [], st_segments = segments_list, st_labels = []\<rparr>)"

text \<open>
  Lines 1262 to 1382: the external pipeline, tried when
  \<^verbatim>\<open>not speaker_labels and self.diarization_pipeline\<close>.
\<close>

definition pyannote_stage :: "config \<Rightarrow> 'e file_input \<Rightarrow> stage \<Rightarrow> stage" where
  "pyannote_stage cfg fi st =
     (if st_labels st = [] \<and> pipeline_loaded cfg then
        (case pyannote fi of
           None \<Rightarrow>
             \<lparr>st_events = st_events st @ [RunPyannote] @ locked_progress 96,
              st_segments = st_segments st, st_labels = []\<rparr>
         | Some speaker_turns \<Rightarrow>
             \<lparr>st_events = st_events st @ [RunPyannote] @ locked_progress 96 @ locked_progress 98,
              st_segments = turn_resegment speaker_turns (st_segments st),
              st_labels = speaker_labels_of (turn_resegment speaker_turns (st_segments st))\<rparr>)
      else st)"

definition diarization_stage :: "config \<Rightarrow> 'e file_input \<Rightarrow> segment list \<Rightarrow> stage" where
  "diarization_stage cfg fi segments_list =
     pyannote_stage cfg fi (wavlm_stage cfg fi segments_list)"

subsection \<open>The output\<close>

text \<open>
  The body of the output file (lines 1394 to 1406), one string per segment; the four
  header lines are left out. \<^verbatim>\<open>speaker_labels.get(idx, "")\<close> is the label of the
  segment's index, or the empty string.
\<close>

definition render_segment :: "bool \<Rightarrow> (nat \<times> string) list \<Rightarrow> nat \<times> segment \<Rightarrow> string" where
  "render_segment timestamps speaker_labels p =
     (let idx = fst p; seg = snd p;
          speaker = (case map_of speaker_labels idx of None \<Rightarrow> [] | Some s \<Rightarrow> s);
          speaker_label = (if speaker \<noteq> [] then speaker @ '': '' else [])
      in (if timestamps then
            ''['' @ format_timestamp (seg_start seg) @ '' --> ''
              @ format_timestamp (seg_end seg) @ '']'' @ [CHR 0x0A]
          else [])
         @ speaker_label @ strip (seg_text seg) @ [CHR 0x0A, CHR 0x0A])"

definition render_body :: "bool \<Rightarrow> segment list \<Rightarrow> (nat \<times> string) list \<Rightarrow> string list" where
  "render_body timestamps segments_list speaker_labels =
     map (render_segment timestamps speaker_labels) (enumerate 0 segments_list)"

datatype file_result = Written | Failed | Cancelled

text \<open>
  Everything of \<^verbatim>\<open>transcribe_file\<close> after the segment loop: progress 95, the
  diarization stage, the write. It never reads the stop flag. An output file that cannot
  be opened raises into the outer handler.
\<close>

definition finish_file :: "config \<Rightarrow> 'e file_input \<Rightarrow> segment list \<Rightarrow> event list \<times> file_result" where
  "finish_file cfg fi segments_list =
     (let st = diarization_stage cfg fi segments_list in
      if open_ok fi then
        (locked_progress 95 @ st_events st
           @ [WriteOutput (fi_stem fi @ ''.txt'')
                (render_body (with_timestamps cfg) (st_segments st) (st_labels st))],
         Written)
      else (locked_progress 95 @ st_events st @ [StatusError (fi_name fi)], Failed))"

text \<open>
  \<^verbatim>\<open>transcribe_file\<close> (lines 1018 to 1417). \<open>Written\<close> is \<^verbatim>\<open>return True\<close>,
  \<open>Failed\<close> is the outer handler's \<^verbatim>\<open>return False\<close>, \<open>Cancelled\<close> the bare
  \<^verbatim>\<open>return\<close> of the segment loop.
\<close>

definition transcribe_file ::
  "nat option \<Rightarrow> nat \<Rightarrow> config \<Rightarrow> 'e file_input \<Rightarrow> event list \<times> file_result" where
  "transcribe_file stop_at clock cfg fi =
     (if transcribe_raises fi then ([StatusError (fi_name fi)], Failed)
      else
        (let reset = [Acquire, SetProgress 0, SetProcessed 0, Release];
             r = segment_loop stop_at (clock + length reset) (duration fi) (stream_raises fi)
                   (stream fi) []
         in case snd r of
              Stopped \<Rightarrow> (reset @ fst r, Cancelled)
            | Raised \<Rightarrow> (reset @ fst r @ [StatusError (fi_name fi)], Failed)
            | Done segments_list \<Rightarrow>
                (reset @ fst r @ fst (finish_file cfg fi segments_list),
                 snd (finish_file cfg fi segments_list))))"

section \<open>The queue\<close>

text \<open>
  The loop \<^verbatim>\<open>for i, file_path in enumerate(self.file_queue, 1)\<close> of
  \<^verbatim>\<open>process_files\<close> (lines 986 to 1007). The result of \<^verbatim>\<open>transcribe_file\<close> is
  not looked at. The progress bar widget is set to
  \<^verbatim>\<open>int(((i - 1) / total_files) * 100)\<close> before the file and to
  \<^verbatim>\<open>int((i / total_files) * 100)\<close> after it.
\<close>

fun file_loop ::
  "nat option \<Rightarrow> nat \<Rightarrow> config \<Rightarrow> nat \<Rightarrow> nat \<Rightarrow> 'e file_input list \<Rightarrow> event list" where
  "file_loop stop_at clock cfg i total_files [] = []"
| "file_loop stop_at clock cfg i total_files (fi # rest) =
     (if stop_requested stop_at clock then [CheckStop True]
      else
        (let begin = [CheckStop False, StatusTranscribing i total_files (fi_name fi),
                      SetBar (py_int (real (i - 1) / real total_files * 100))];
             evs = fst (transcribe_file stop_at (clock + length begin) cfg fi);
             after = [SetBar (py_int (real i / real total_files * 100))]
         in begin @ evs @ after
            @ file_loop stop_at (clock + length begin + length evs + length after) cfg (Suc i)
                total_files rest))"

definition process_files :: "nat option \<Rightarrow> config \<Rightarrow> 'e file_input list \<Rightarrow> event list" where
  "process_files stop_at cfg file_queue =
     file_loop stop_at 0 cfg 1 (length file_queue) file_queue @ [ScheduleComplete]"

text \<open>
  The value of the progress bar widget and the status that \<^verbatim>\<open>transcription_complete\<close>
  sets (lines 1445 to 1456): 0 and \<^verbatim>\<open>Stopped by user\<close>, or 100 and \<^verbatim>\<open>Complete\<close>
  with \<^verbatim>\<open>len(self.file_queue)\<close> as the number of files transcribed.
\<close>

datatype final_status = StoppedByUser | CompleteTranscribed nat

definition transcription_complete :: "bool \<Rightarrow> nat \<Rightarrow> int \<times> final_status" where
  "transcription_complete stop_flag queue_length =
     (if stop_flag then (0, StoppedByUser) else (100, CompleteTranscribed queue_length))"

text \<open>
  \<^verbatim>\<open>poll_progress\<close> (lines 1425 to 1443): the observer reads the progress value and
  the segment count inside the lock, while a run is in progress.
\<close>

definition poll_progress :: "bool \<Rightarrow> event list" where
  "poll_progress is_processing = (if is_processing then [Acquire, ReadProgress, Release] else [])"

section \<open>Reading a trace\<close>

text \<open>The values written to the progress variable, in order.\<close>

fun progress_writes :: "event list \<Rightarrow> real list" where
  "progress_writes [] = []"
| "progress_writes (SetProgress p # es) = p # progress_writes es"
| "progress_writes (e # es) = progress_writes es"

text \<open>The values given to the progress bar widget by the worker, in order.\<close>

fun bar_writes :: "event list \<Rightarrow> int list" where
  "bar_writes [] = []"
| "bar_writes (SetBar p # es) = p # bar_writes es"
| "bar_writes (e # es) = bar_writes es"

text \<open>The output files written, in order.\<close>

fun outputs_written :: "event list \<Rightarrow> string list" where
  "outputs_written [] = []"
| "outputs_written (WriteOutput path body # es) = path # outputs_written es"
| "outputs_written (e # es) = outputs_written es"

text \<open>The files whose run was begun, in order.\<close>

fun files_begun :: "event list \<Rightarrow> string list" where
  "files_begun [] = []"
| "files_begun (StatusTranscribing i n name # es) = name # files_begun es"
| "files_begun (e # es) = files_begun es"

text \<open>
  The lock discipline of a trace: the lock is taken only when free and released only when
  held, the shared variables are written and read only while it is held, and it is free at
  the end. The first argument says whether the lock is held.
\<close>

fun lock_scan :: "bool \<Rightarrow> event list \<Rightarrow> bool" where
  "lock_scan held [] = (\<not> held)"
| "lock_scan held (Acquire # es) = (\<not> held \<and> lock_scan True es)"
| "lock_scan held (Release # es) = (held \<and> lock_scan False es)"
| "lock_scan held (SetProgress p # es) = (held \<and> lock_scan held es)"
| "lock_scan held (SetProcessed n # es) = (held \<and> lock_scan held es)"
| "lock_scan held (ReadProgress # es) = (held \<and> lock_scan held es)"
| "lock_scan held (e # es) = lock_scan held es"

definition is_check :: "event \<Rightarrow> bool" where
  "is_check e = (case e of CheckStop b \<Rightarrow> True | _ \<Rightarrow> False)"

text \<open>The files on disk after a trace, from those on disk before it.\<close>

fun disk_after :: "(string \<rightharpoonup> string list) \<Rightarrow> event list \<Rightarrow> (string \<rightharpoonup> string list)" where
  "disk_after disk [] = disk"
| "disk_after disk (WriteOutput path body # es) = disk_after (disk(path \<mapsto> body)) es"
| "disk_after disk (e # es) = disk_after disk es"

text \<open>A property of every event of a trace and the time at which it happens.\<close>

definition each_at :: "(nat \<Rightarrow> event \<Rightarrow> bool) \<Rightarrow> nat \<Rightarrow> event list \<Rightarrow> bool" where
  "each_at P clock evs \<longleftrightarrow> (\<forall>k < length evs. P (clock + k) (evs ! k))"

text \<open>
  The segments taken from the transcription generator: the assignments
  \<^verbatim>\<open>self.processed_segments = len(segments_list)\<close> made in the loop (the reset
  assigns 0).
\<close>

fun segments_taken :: "event list \<Rightarrow> nat" where
  "segments_taken [] = 0"
| "segments_taken (SetProcessed n # es) = (if 0 < n then 1 else 0) + segments_taken es"
| "segments_taken (e # es) = segments_taken es"

text \<open>The files whose failure was put on the status line, in order.\<close>

fun errors_reported :: "event list \<Rightarrow> string list" where
  "errors_reported [] = []"
| "errors_reported (StatusError name # es) = name # errors_reported es"
| "errors_reported (e # es) = errors_reported es"

text \<open>A file that meets no exception outside the diarizers.\<close>

definition file_succeeds :: "'e file_input \<Rightarrow> bool" where
  "file_succeeds fi \<longleftrightarrow> \<not> transcribe_raises fi \<and> \<not> stream_raises fi \<and> open_ok fi"

section \<open>Example inputs\<close>

definition scenario :: "word list" where
  "scenario =
     [\<lparr>w_text = '' hi'', w_start = 0, w_end = 0.3, w_speaker = Some ''S0''\<rparr>,
      \<lparr>w_text = '' there'', w_start = 0.3, w_end = 0.6, w_speaker = Some ''S0''\<rparr>,
      \<lparr>w_text = '' bob'', w_start = 1.0, w_end = 1.3, w_speaker = Some ''S1''\<rparr>]"

definition overlapping_turns :: "turn list" where
  "overlapping_turns =
     [\<lparr>turn_start = 0, turn_end = 2, turn_speaker = ''SPEAKER_00''\<rparr>,
      \<lparr>turn_start = 1, turn_end = 3, turn_speaker = ''SPEAKER_01''\<rparr>]"

definition word_in_both :: word where
  "word_in_both = \<lparr>w_text = '' yes'', w_start = 1.2, w_end = 1.8, w_speaker = None\<rparr>"

definition word_in_none :: word where
  "word_in_none = \<lparr>w_text = '' no'', w_start = 5, w_end = 6, w_speaker = None\<rparr>"

definition one_turn :: "turn list" where
  "one_turn = [\<lparr>turn_start = 0, turn_end = 10, turn_speaker = ''SPEAKER_00''\<rparr>]"

definition two_segments :: "segment list" where
  "two_segments =
     [\<lparr>seg_text = '' Hello there.'', seg_start = 0, seg_end = 1, seg_speaker = None,
       seg_words = [\<lparr>w_text = '' Hello'', w_start = 0, w_end = 0.5, w_speaker = None\<rparr>,
                    \<lparr>w_text = '' there.'', w_start = 0.5, w_end = 1, w_speaker = None\<rparr>]\<rparr>,
      \<lparr>seg_text = '' How are you?'', seg_start = 1, seg_end = 2, seg_speaker = None,
       seg_words = [\<lparr>w_text = '' How'', w_start = 1, w_end = 1.3, w_speaker = None\<rparr>,
                    \<lparr>w_text = '' are'', w_start = 1.3, w_end = 1.6, w_speaker = None\<rparr>,
                    \<lparr>w_text = '' you?'', w_start = 1.6, w_end = 2, w_speaker = None\<rparr>]\<rparr>]"

definition voting_windows :: "lseg_info list" where
  "voting_windows =
     [\<lparr>word_indices = [0, 1], si_start = 0, si_end = 1, si_speaker = ''SPEAKER_01''\<rparr>,
      \<lparr>word_indices = [0, 1], si_start = 0.5, si_end = 1.5, si_speaker = ''SPEAKER_00''\<rparr>,
      \<lparr>word_indices = [1], si_start = 1, si_end = 2, si_speaker = ''SPEAKER_00''\<rparr>,
      \<lparr>word_indices = [3], si_start = 4, si_end = 5, si_speaker = ''SPEAKER_01''\<rparr>]"

definition voting_words :: "word list" where
  "voting_words =
     [\<lparr>w_text = '' a'', w_start = 3 / 5, w_end = 4 / 5, w_speaker = None\<rparr>,
      \<lparr>w_text = '' b'', w_start = 1.1, w_end = 1.3, w_speaker = None\<rparr>,
      \<lparr>w_text = '' c'', w_start = 2.9, w_end = 3.1, w_speaker = None\<rparr>,
      \<lparr>w_text = '' d'', w_start = 4.2, w_end = 4.4, w_speaker = None\<rparr>]"

definition single_word :: "word list" where
  "single_word = [\<lparr>w_text = '' yes'', w_start = 3 / 5, w_end = 4 / 5, w_speaker = None\<rparr>]"

definition round_robin :: "nat list \<Rightarrow> int \<Rightarrow> nat list option" where
  "round_robin embeddings n_clusters =
     Some (map (\<lambda>i. i mod nat n_clusters) [0 ..< length embeddings])"

definition example_ext :: "nat wavlm_ext" where
  "example_ext =
     \<lparr>audio_ok = True,
      extract_embedding = (\<lambda>seg. Some (length (word_indices seg))),
      clustering = round_robin\<rparr>"

definition two_windows :: "(nat \<times> seg_info) list" where
  "two_windows =
     [(1, \<lparr>word_indices = [0], si_start = 0, si_end = 4 / 5\<rparr>),
      (1, \<lparr>word_indices = [0], si_start = 1 / 2, si_end = 4 / 5\<rparr>)]"

definition both_loaded :: config where
  "both_loaded = \<lparr>wavlm_loaded = True, pipeline_loaded = True, num_speakers = 0,
     with_timestamps = False\<rparr>"

definition failing_ext :: "nat wavlm_ext" where
  "failing_ext = \<lparr>audio_ok = False, extract_embedding = (\<lambda>seg. None), clustering = round_robin\<rparr>"

definition one_segment :: "segment list" where
  "one_segment =
     [\<lparr>seg_text = '' yes'', seg_start = 3 / 5, seg_end = 4 / 5, seg_speaker = None,
       seg_words = single_word\<rparr>]"

definition one_file :: "nat file_input" where
  "one_file =
     \<lparr>fi_name = ''talk.mp3'', fi_stem = ''talk'', transcribe_raises = False,
      stream = one_segment, stream_raises = False, duration = 1,
      wavlm = example_ext, pyannote = Some one_turn, open_ok = True\<rparr>"

definition no_diarization :: config where
  "no_diarization = \<lparr>wavlm_loaded = False, pipeline_loaded = False, num_speakers = 0,
     with_timestamps = False\<rparr>"

definition two_segment_file :: "nat file_input" where
  "two_segment_file =
     \<lparr>fi_name = ''talk.mp3'', fi_stem = ''talk'', transcribe_raises = False,
      stream = two_segments, stream_raises = False, duration = 2,
      wavlm = failing_ext, pyannote = None, open_ok = True\<rparr>"

definition broken_file :: "nat file_input" where
  "broken_file =
     \<lparr>fi_name = ''noise.wav'', fi_stem = ''noise'', transcribe_raises = True,
      stream = [], stream_raises = False, duration = 0,
      wavlm = failing_ext, pyannote = None, open_ok = True\<rparr>"

section \<open>Properties of re-segmentation\<close>

lemma runs_const_append:
  assumes "cw \<noteq> []" and "\<forall>v \<in> set cw. w_speaker v = sp"
  shows "runs (cw @ ws) =
    (cw @ takeWhile (\<lambda>v. w_speaker v = sp) ws) # runs (dropWhile (\<lambda>v. w_speaker v = sp) ws)"
proof -
  from assms(1) obtain c cs where cw: "cw = c # cs" by (cases cw) auto
  with assms(2) have c: "w_speaker c = sp" and cs: "\<forall>v \<in> set cs. w_speaker v = sp"
    by auto
  from cs have "takeWhile (\<lambda>v. w_speaker v = sp) (cs @ ws) = cs @ takeWhile (\<lambda>v. w_speaker v = sp) ws"
    by (simp add: takeWhile_append2)
  moreover from cs have "dropWhile (\<lambda>v. w_speaker v = sp) (cs @ ws) = dropWhile (\<lambda>v. w_speaker v = sp) ws"
    by (simp add: dropWhile_append2)
  ultimately show ?thesis using cw c by simp
qed

lemma close_run_segment_of_run:
  "cw \<noteq> [] \<Longrightarrow> \<forall>v \<in> set cw. w_speaker v = sp \<Longrightarrow>
   close_run \<lparr>new_segments = acc, current_speaker = sp, current_words = cw,
     current_start = w_start (hd cw)\<rparr> = segment_of_run cw"
  by (cases cw) (simp_all add: close_run_def segment_of_run_def SegmentWithSpeaker_def)

lemma reseg_loop_runs:
  assumes "cw \<noteq> []" and "\<forall>v \<in> set cw. w_speaker v = sp"
  shows "reseg_finish (foldl reseg_step
      \<lparr>new_segments = acc, current_speaker = sp, current_words = cw,
       current_start = w_start (hd cw)\<rparr> ws)
    = acc @ map segment_of_run (runs (cw @ ws))"
  using assms
proof (induction ws arbitrary: acc cw sp)
  case Nil
  have "runs cw = [cw]" using runs_const_append [OF Nil.prems, of "[]"] by simp
  then show ?case using Nil.prems
    by (simp add: reseg_finish_def close_run_segment_of_run)
next
  case (Cons w ws)
  show ?case
  proof (cases "w_speaker w = sp")
    case True
    let ?cw = "cw @ [w]"
    have step: "reseg_step \<lparr>new_segments = acc, current_speaker = sp, current_words = cw,
        current_start = w_start (hd cw)\<rparr> w
      = \<lparr>new_segments = acc, current_speaker = sp, current_words = ?cw,
         current_start = w_start (hd ?cw)\<rparr>"
      using True Cons.prems(1) by (simp add: reseg_step_def)
    have "?cw \<noteq> []" and "\<forall>v \<in> set ?cw. w_speaker v = sp"
      using True Cons.prems by auto
    from Cons.IH [OF this, of acc] show ?thesis by (simp add: step)
  next
    case False
    have step: "reseg_step \<lparr>new_segments = acc, current_speaker = sp, current_words = cw,
        current_start = w_start (hd cw)\<rparr> w
      = \<lparr>new_segments = acc @ [segment_of_run cw], current_speaker = w_speaker w,
         current_words = [w], current_start = w_start (hd [w])\<rparr>"
      using False Cons.prems by (simp add: reseg_step_def close_run_segment_of_run)
    have r: "runs (cw @ w # ws) = cw # runs (w # ws)"
      using runs_const_append [OF Cons.prems, of "w # ws"] False by simp
    have "[w] \<noteq> []" and "\<forall>v \<in> set [w]. w_speaker v = w_speaker w" by auto
    from Cons.IH [OF this, of "acc @ [segment_of_run cw]"] show ?thesis
      by (simp add: step r del: runs.simps)
  qed
qed

lemma resegment_runs: "resegment ws = map segment_of_run (runs ws)"
proof (cases ws)
  case Nil
  then show ?thesis by (simp add: resegment_def reseg_finish_def)
next
  case (Cons w ws')
  have "[w] \<noteq> []" and "\<forall>v \<in> set [w]. w_speaker v = w_speaker w" by auto
  from reseg_loop_runs [OF this, of "[]" ws'] show ?thesis
    using Cons by (simp add: resegment_def reseg_step_def del: runs.simps)
qed


lemma runs_concat: "concat (runs ws) = ws"
  by (induction ws rule: runs.induct) simp_all

lemma runs_nonempty: "r \<in> set (runs ws) \<Longrightarrow> r \<noteq> []"
  by (induction ws rule: runs.induct) auto

lemma runs_same_speaker:
  "r \<in> set (runs ws) \<Longrightarrow> v \<in> set r \<Longrightarrow> w_speaker v = w_speaker (hd r)"
  by (induction ws rule: runs.induct) (auto dest: set_takeWhileD)

lemma hd_runs: "ws \<noteq> [] \<Longrightarrow> hd (hd (runs ws)) = hd ws"
  by (cases ws) simp_all

lemma runs_eq_Nil: "runs ws = [] \<longleftrightarrow> ws = []"
  by (cases ws) simp_all

lemma runs_adjacent_differ:
  "Suc i < length (runs ws) \<Longrightarrow>
   w_speaker (hd (runs ws ! i)) \<noteq> w_speaker (hd (runs ws ! Suc i))"
proof (induction ws arbitrary: i rule: runs.induct)
  case 1
  then show ?case by simp
next
  case (2 w ws)
  let ?rest = "dropWhile (\<lambda>v. w_speaker v = w_speaker w) ws"
  show ?case
  proof (cases i)
    case 0
    with "2.prems" have ne: "?rest \<noteq> []" by (auto simp: runs_eq_Nil)
    then have "w_speaker (hd ?rest) \<noteq> w_speaker w"
      using hd_dropWhile [of "\<lambda>v. w_speaker v = w_speaker w" ws] by simp
    moreover have "hd (runs ?rest ! 0) = hd ?rest"
      using hd_runs [OF ne] ne by (simp add: hd_conv_nth runs_eq_Nil)
    ultimately show ?thesis using 0 by simp
  next
    case (Suc j)
    with "2.prems" have "Suc j < length (runs ?rest)" by simp
    from "2.IH" [OF this] show ?thesis using Suc by simp
  qed
qed

lemma hd_runs_in_set: "r \<in> set (runs ws) \<Longrightarrow> hd r \<in> set ws"
  by (induction ws rule: runs.induct) (auto dest: set_dropWhileD)

lemma sorted_run_starts:
  "sorted (map w_start ws) \<Longrightarrow> sorted (map (\<lambda>r. w_start (hd r)) (runs ws))"
proof (induction ws rule: runs.induct)
  case 1
  then show ?case by simp
next
  case (2 w ws)
  let ?rest = "dropWhile (\<lambda>v. w_speaker v = w_speaker w) ws"
  from "2.prems" have le: "\<forall>v \<in> set ws. w_start w \<le> w_start v"
    and srt: "sorted (map w_start ws)" by auto
  have "sorted (map w_start ?rest)"
    using srt by (metis sorted_append map_append takeWhile_dropWhile_id)
  then have "sorted (map (\<lambda>r. w_start (hd r)) (runs ?rest))" by (rule "2.IH")
  moreover have "\<forall>r \<in> set (runs ?rest). w_start w \<le> w_start (hd r)"
    using le by (auto dest!: hd_runs_in_set set_dropWhileD)
  ultimately show ?case by simp
qed

lemma isspace_space: "isspace CHR '' ''"
  by (simp add: isspace_def)

lemma no_space_dropWhile: "no_space (dropWhile isspace s) = no_space s"
  by (induction s) (simp_all add: no_space_def)

lemma no_space_rev: "no_space (rev s) = rev (no_space s)"
  by (simp add: no_space_def rev_filter)

lemma no_space_strip: "no_space (strip s) = no_space s"
  by (simp add: strip_def no_space_rev no_space_dropWhile)

lemma no_space_append: "no_space (s @ t) = no_space s @ no_space t"
  by (simp add: no_space_def)

lemma no_space_join: "no_space (join_space xs) = concat (map no_space xs)"
  by (induction xs rule: join_space.induct) (simp_all add: no_space_def isspace_space)

lemma no_space_concat: "no_space (concat xs) = concat (map no_space xs)"
  by (induction xs) (simp_all add: no_space_def)

lemma no_space_segment_of_run:
  "no_space (seg_text (segment_of_run r)) = no_space (concat (map w_text r))"
  by (simp add: segment_of_run_def no_space_join no_space_concat comp_def no_space_strip)

lemma no_space_runs:
  "no_space (concat (map (\<lambda>r. seg_text (segment_of_run r)) rs))
   = no_space (concat (map w_text (concat rs)))"
proof (induction rs)
  case Nil
  show ?case by simp
next
  case (Cons r rs)
  have "no_space (concat (map (\<lambda>r. seg_text (segment_of_run r)) (r # rs)))
    = no_space (seg_text (segment_of_run r))
      @ no_space (concat (map (\<lambda>r. seg_text (segment_of_run r)) rs))"
    by (simp add: no_space_append)
  also have "\<dots> = no_space (concat (map w_text r)) @ no_space (concat (map w_text (concat rs)))"
    by (simp only: no_space_segment_of_run Cons.IH)
  also have "\<dots> = no_space (concat (map w_text (concat (r # rs))))"
    by (simp add: no_space_append)
  finally show ?case .
qed

text \<open>
  Claim C1. The re-segmentation loop over \<^verbatim>\<open>all_words\<close> emits one segment per
  maximal run of consecutive words with the same speaker label: the runs concatenate to the
  input, none is empty, each has one label, neighbouring runs differ in their label, and the
  output is the list of their segments. A run's segment carries the stripped word texts
  joined by single spaces, the start of the run's first word, the end of its last word and
  the run's label. When the words are in chronological order of their start times, so are
  the segments. With all white space removed, the segment texts concatenated are the word
  texts concatenated. No words give no segments.
\<close>

theorem C1_resegment_maximal_runs:
  "resegment ws = map segment_of_run (runs ws)
   \<and> length (resegment ws) = length (runs ws)
   \<and> concat (runs ws) = ws
   \<and> (\<forall>r \<in> set (runs ws). r \<noteq> [] \<and> (\<forall>v \<in> set r. w_speaker v = w_speaker (hd r))
        \<and> seg_text (segment_of_run r) = join_space (map (\<lambda>w. strip (w_text w)) r)
        \<and> seg_start (segment_of_run r) = w_start (hd r)
        \<and> seg_end (segment_of_run r) = w_end (last r)
        \<and> seg_speaker (segment_of_run r) = w_speaker (hd r))
   \<and> (\<forall>i. Suc i < length (runs ws) \<longrightarrow>
        w_speaker (hd (runs ws ! i)) \<noteq> w_speaker (hd (runs ws ! Suc i)))
   \<and> (sorted (map w_start ws) \<longrightarrow> sorted (map seg_start (resegment ws)))
   \<and> no_space (concat (map seg_text (resegment ws))) = no_space (concat (map w_text ws))
   \<and> (ws \<noteq> [] \<longrightarrow> resegment ws \<noteq> [])
   \<and> resegment [] = []"
proof -
  have eq: "resegment ws = map segment_of_run (runs ws)" by (rule resegment_runs)
  have len: "length (resegment ws) = length (runs ws)" by (simp add: eq)
  have srt: "sorted (map w_start ws) \<longrightarrow> sorted (map seg_start (resegment ws))"
    using sorted_run_starts [of ws] by (simp add: eq comp_def segment_of_run_def)
  have txts: "no_space (concat (map seg_text (resegment ws))) = no_space (concat (map w_text ws))"
    using no_space_runs [of "runs ws"] by (simp add: eq comp_def runs_concat)
  have rs: "\<forall>r \<in> set (runs ws). r \<noteq> [] \<and> (\<forall>v \<in> set r. w_speaker v = w_speaker (hd r))
        \<and> seg_text (segment_of_run r) = join_space (map (\<lambda>w. strip (w_text w)) r)
        \<and> seg_start (segment_of_run r) = w_start (hd r)
        \<and> seg_end (segment_of_run r) = w_end (last r)
        \<and> seg_speaker (segment_of_run r) = w_speaker (hd r)"
  proof (rule ballI, intro conjI)
    fix r assume r: "r \<in> set (runs ws)"
    show "r \<noteq> []" using r by (rule runs_nonempty)
    show "\<forall>v \<in> set r. w_speaker v = w_speaker (hd r)"
      using r runs_same_speaker by blast
  qed (simp_all add: segment_of_run_def)
  have adj: "\<forall>i. Suc i < length (runs ws) \<longrightarrow>
        w_speaker (hd (runs ws ! i)) \<noteq> w_speaker (hd (runs ws ! Suc i))"
    using runs_adjacent_differ by blast
  have emp: "resegment [] = []" by (simp add: resegment_runs)
  have ne: "ws \<noteq> [] \<longrightarrow> resegment ws \<noteq> []" by (simp add: eq runs_eq_Nil)
  from eq len runs_concat [of ws] rs adj srt txts ne emp show ?thesis by blast
qed

theorem C1_resegment_scenario:
  "sorted (map w_start scenario) \<and> scenario \<noteq> []
   \<and> resegment scenario =
       [SegmentWithSpeaker ''hi there'' 0 0.6 (Some ''S0''),
        SegmentWithSpeaker ''bob'' 1.0 1.3 (Some ''S1'')]
   \<and> length (runs scenario) = 2
   \<and> sorted (map seg_start (resegment scenario))"
  using C1_resegment_maximal_runs [of scenario]
  by (simp add: scenario_def segment_of_run_def strip_def isspace_def SegmentWithSpeaker_def)

section \<open>Properties of the formatting\<close>

lemma digit_value_digit_char: "d < 10 \<Longrightarrow> digit_value (digit_char d) = d"
proof -
  assume "d < 10"
  then have "d \<in> {0, 1, 2, 3, 4, 5, 6, 7, 8, 9}" by auto
  then show ?thesis by (auto simp: digit_value_def digit_char_def)
qed

lemma nat_of_digits_snoc: "nat_of_digits (s @ [c]) = 10 * nat_of_digits s + digit_value c"
  by (simp add: nat_of_digits_def)

lemma nat_of_digits_str_nat: "nat_of_digits (str_nat n) = n"
proof (induction n rule: str_nat.induct)
  case (1 n)
  show ?case
  proof (cases "n < 10")
    case True
    then show ?thesis
      by (subst str_nat.simps) (simp add: nat_of_digits_def digit_value_digit_char)
  next
    case False
    with 1 have "nat_of_digits (str_nat (n div 10)) = n div 10" by simp
    with False show ?thesis
      by (subst str_nat.simps) (simp add: nat_of_digits_snoc digit_value_digit_char)
  qed
qed

lemma nat_of_digits_zeros: "nat_of_digits (replicate k CHR ''0'' @ s) = nat_of_digits s"
  by (induction k) (simp_all add: nat_of_digits_def digit_value_def)

lemma nat_of_digits_fmt_02d: "0 \<le> n \<Longrightarrow> nat_of_digits (fmt_02d n) = nat n"
  by (simp add: fmt_02d_def nat_of_digits_zeros nat_of_digits_str_nat)

lemma fmt_02d_inj: "0 \<le> m \<Longrightarrow> 0 \<le> n \<Longrightarrow> fmt_02d m = fmt_02d n \<Longrightarrow> m = n"
proof -
  assume m: "0 \<le> m" and n: "0 \<le> n" and eq: "fmt_02d m = fmt_02d n"
  from m n have "nat_of_digits (fmt_02d m) = nat m" "nat_of_digits (fmt_02d n) = nat n"
    by (simp_all add: nat_of_digits_fmt_02d)
  with eq m n show "m = n" by simp
qed

lemma length_str_nat:
  "length (str_nat n) = (if n < 10 then 1 else Suc (length (str_nat (n div 10))))"
  by (subst str_nat.simps) simp

lemma length_str_nat_pos: "Suc 0 \<le> length (str_nat n)"
  by (subst str_nat.simps) simp

lemma length_str_nat_1: "n < 10 \<Longrightarrow> length (str_nat n) = 1"
  by (simp add: length_str_nat [of n])

lemma length_str_nat_2: "10 \<le> n \<Longrightarrow> n < 100 \<Longrightarrow> length (str_nat n) = 2"
proof -
  assume a: "10 \<le> n" "n < 100"
  then have "n div 10 < 10" by arith
  then have "length (str_nat (n div 10)) = 1" by (rule length_str_nat_1)
  with a show ?thesis by (simp add: length_str_nat [of n])
qed

lemma length_str_nat_ge3: "100 \<le> n \<Longrightarrow> 3 \<le> length (str_nat n)"
proof -
  assume a: "100 \<le> n"
  then have b: "\<not> n div 10 < 10" "\<not> n < 10" by arith+
  from length_str_nat_pos [of "n div 10 div 10"] b show ?thesis
    by (simp add: length_str_nat [of n] length_str_nat [of "n div 10"])
qed

lemma length_fmt_02d:
  "0 \<le> n \<Longrightarrow> length (fmt_02d n) = (if n < 100 then 2 else length (str_nat (nat n)))"
proof -
  assume n: "0 \<le> n"
  consider "nat n < 10" | "10 \<le> nat n" "nat n < 100" | "100 \<le> nat n" by linarith
  then show ?thesis
  proof cases
    case 1
    with n show ?thesis by (simp add: fmt_02d_def length_str_nat_1)
  next
    case 2
    with n show ?thesis by (simp add: fmt_02d_def length_str_nat_2)
  next
    case 3
    then have "\<not> n < 100" by linarith
    with 3 n length_str_nat_ge3 [of "nat n"] show ?thesis by (simp add: fmt_02d_def)
  qed
qed

lemma digit_char_is_digit: "d < 10 \<Longrightarrow> digit_char d \<in> set ''0123456789''"
  by (simp add: digit_char_def del: set_simps list.set)

lemma str_nat_digits: "set (str_nat n) \<subseteq> set ''0123456789''"
proof (induction n rule: str_nat.induct)
  case (1 n)
  show ?case
  proof (cases "n < 10")
    case True
    with digit_char_is_digit [of n] show ?thesis by (subst str_nat.simps) simp
  next
    case False
    with 1 have "set (str_nat (n div 10)) \<subseteq> set ''0123456789''" by simp
    moreover have "digit_char (n mod 10) \<in> set ''0123456789''"
      by (rule digit_char_is_digit) simp
    ultimately show ?thesis using False by (subst str_nat.simps) simp
  qed
qed

lemma fmt_02d_digits: "0 \<le> n \<Longrightarrow> set (fmt_02d n) \<subseteq> set ''0123456789''"
  using str_nat_digits [of "nat n"] by (auto simp: fmt_02d_def)

section \<open>Properties of the time stamps\<close>

lemma format_timestamp_fields:
  assumes "0 \<le> s"
  shows "py_int (py_floordiv s 3600) = \<lfloor>s\<rfloor> div 3600"
    and "py_int (py_floordiv (py_mod s 3600) 60) = \<lfloor>s\<rfloor> mod 3600 div 60"
    and "py_int (py_mod s 60) = \<lfloor>s\<rfloor> mod 60"
proof -
  have q: "\<lfloor>s / 3600\<rfloor> = \<lfloor>s\<rfloor> div 3600"
    using floor_divide_real_eq_div [of 3600 s] by simp
  have q60: "\<lfloor>s / 60\<rfloor> = \<lfloor>s\<rfloor> div 60"
    using floor_divide_real_eq_div [of 60 s] by simp
  from assms have fs: "0 \<le> \<lfloor>s\<rfloor>" by simp
  then have "0 \<le> \<lfloor>s\<rfloor> div 3600" by (simp add: pos_imp_zdiv_nonneg_iff)
  then show "py_int (py_floordiv s 3600) = \<lfloor>s\<rfloor> div 3600"
    by (simp add: py_int_def py_floordiv_def q)
  have m: "\<lfloor>py_mod s 3600\<rfloor> = \<lfloor>s\<rfloor> mod 3600"
  proof -
    have "py_mod s 3600 = s - of_int (3600 * (\<lfloor>s\<rfloor> div 3600))"
      by (simp add: py_mod_def q)
    then have "\<lfloor>py_mod s 3600\<rfloor> = \<lfloor>s\<rfloor> - 3600 * (\<lfloor>s\<rfloor> div 3600)"
      by (simp only: floor_diff_of_int)
    then show ?thesis by (simp add: minus_mult_div_eq_mod)
  qed
  have "\<lfloor>py_mod s 3600 / 60\<rfloor> = \<lfloor>s\<rfloor> mod 3600 div 60"
    using floor_divide_real_eq_div [of 60 "py_mod s 3600"] by (simp add: m)
  moreover have "0 \<le> \<lfloor>s\<rfloor> mod 3600 div 60" by (simp add: pos_imp_zdiv_nonneg_iff)
  ultimately show "py_int (py_floordiv (py_mod s 3600) 60) = \<lfloor>s\<rfloor> mod 3600 div 60"
    by (simp add: py_int_def py_floordiv_def)
  have "py_mod s 60 = s - of_int (60 * (\<lfloor>s\<rfloor> div 60))"
    by (simp add: py_mod_def q60)
  then have "\<lfloor>py_mod s 60\<rfloor> = \<lfloor>s\<rfloor> - 60 * (\<lfloor>s\<rfloor> div 60)"
    by (simp only: floor_diff_of_int)
  then have f: "\<lfloor>py_mod s 60\<rfloor> = \<lfloor>s\<rfloor> mod 60" by (simp add: minus_mult_div_eq_mod)
  have "0 \<le> \<lfloor>s\<rfloor> mod 60" by simp
  with f have "0 \<le> \<lfloor>py_mod s 60\<rfloor>" by simp
  then have "0 \<le> py_mod s 60" by (simp only: zero_le_floor)
  with f show "py_int (py_mod s 60) = \<lfloor>s\<rfloor> mod 60" by (simp add: py_int_def)
qed

text \<open>
  Claim C10. For a non-negative number of seconds \<open>s\<close>, with \<open>h\<close>, \<open>m\<close> and \<open>c\<close> the
  hours, minutes and seconds of the whole number \<open>\<lfloor>s\<rfloor>\<close>, \<^verbatim>\<open>format_timestamp\<close>
  returns the three fields \<open>h\<close>, \<open>m\<close>, \<open>c\<close> in decimal, each padded with zeros to two
  digits, with colons between them. The minutes and the seconds lie in 0 to 59 and take
  exactly two digits; the hours take two digits below one hundred hours and as many as
  they need from there on. The fields read back as numbers give \<open>\<lfloor>s\<rfloor>\<close>: the fraction
  of the input is dropped, and two inputs with the same whole part give the same string.
\<close>

theorem C10_format_timestamp:
  assumes "0 \<le> s"
  shows "\<exists>h m c. format_timestamp s = fmt_02d h @ '':'' @ fmt_02d m @ '':'' @ fmt_02d c
     \<and> h = \<lfloor>s\<rfloor> div 3600 \<and> m = \<lfloor>s\<rfloor> mod 3600 div 60 \<and> c = \<lfloor>s\<rfloor> mod 60
     \<and> 0 \<le> h \<and> 0 \<le> m \<and> m \<le> 59 \<and> 0 \<le> c \<and> c \<le> 59
     \<and> h * 3600 + m * 60 + c = \<lfloor>s\<rfloor>
     \<and> length (fmt_02d m) = 2 \<and> length (fmt_02d c) = 2 \<and> 2 \<le> length (fmt_02d h)
     \<and> (s < 360000 \<longrightarrow> length (fmt_02d h) = 2)
     \<and> set (fmt_02d h @ fmt_02d m @ fmt_02d c) \<subseteq> set ''0123456789''
     \<and> nat_of_digits (fmt_02d h) = nat h \<and> nat_of_digits (fmt_02d m) = nat m
     \<and> nat_of_digits (fmt_02d c) = nat c
     \<and> format_timestamp (of_int \<lfloor>s\<rfloor>) = format_timestamp s"
proof -
  define h where "h = \<lfloor>s\<rfloor> div 3600"
  define m where "m = \<lfloor>s\<rfloor> mod 3600 div 60"
  define c where "c = \<lfloor>s\<rfloor> mod 60"
  from assms have fs: "0 \<le> \<lfloor>s\<rfloor>" by simp
  have eq: "format_timestamp s = fmt_02d h @ '':'' @ fmt_02d m @ '':'' @ fmt_02d c"
    using format_timestamp_fields [OF assms]
    by (simp add: format_timestamp_def h_def m_def c_def)
  have "0 \<le> (of_int \<lfloor>s\<rfloor> :: real)" using fs by simp
  from format_timestamp_fields [OF this] format_timestamp_fields [OF assms]
  have eq': "format_timestamp (of_int \<lfloor>s\<rfloor>) = format_timestamp s"
    by (simp add: format_timestamp_def)
  have h0: "0 \<le> h" using fs by (simp add: h_def pos_imp_zdiv_nonneg_iff)
  have m0: "0 \<le> m" "m \<le> 59"
  proof -
    show "0 \<le> m" by (simp add: m_def pos_imp_zdiv_nonneg_iff)
    have "\<lfloor>s\<rfloor> mod 3600 \<le> 3599" using pos_mod_bound [of 3600 "\<lfloor>s\<rfloor>"] by simp
    then have "\<lfloor>s\<rfloor> mod 3600 div 60 \<le> 3599 div 60" by (rule zdiv_mono1) simp
    then show "m \<le> 59" by (simp add: m_def)
  qed
  have c0: "0 \<le> c" "c \<le> 59"
    using pos_mod_bound [of 60 "\<lfloor>s\<rfloor>"] by (simp_all add: c_def)
  have sum: "h * 3600 + m * 60 + c = \<lfloor>s\<rfloor>"
  proof -
    have "\<lfloor>s\<rfloor> mod 3600 mod 60 = \<lfloor>s\<rfloor> mod 60" by (rule mod_mod_cancel) simp
    then have "m * 60 + c = \<lfloor>s\<rfloor> mod 3600"
      using div_mult_mod_eq [of "\<lfloor>s\<rfloor> mod 3600" 60] by (simp add: m_def c_def)
    moreover have "\<lfloor>s\<rfloor> div 3600 * 3600 + \<lfloor>s\<rfloor> mod 3600 = \<lfloor>s\<rfloor>"
      by (rule div_mult_mod_eq)
    ultimately show ?thesis unfolding h_def by linarith
  qed
  have lm: "length (fmt_02d m) = 2" using m0 by (simp add: length_fmt_02d)
  have lc: "length (fmt_02d c) = 2" using c0 by (simp add: length_fmt_02d)
  have lh: "2 \<le> length (fmt_02d h)"
  proof (cases "h < 100")
    case True
    with h0 show ?thesis by (simp add: length_fmt_02d)
  next
    case False
    then have "100 \<le> nat h" by linarith
    from length_str_nat_ge3 [OF this] False h0 show ?thesis by (simp add: length_fmt_02d)
  qed
  have lh2: "s < 360000 \<longrightarrow> length (fmt_02d h) = 2"
  proof
    assume "s < 360000"
    then have "\<lfloor>s\<rfloor> < 360000" by (simp add: floor_less_iff)
    then have "\<lfloor>s\<rfloor> \<le> 359999" by simp
    then have "\<lfloor>s\<rfloor> div 3600 \<le> 359999 div 3600" by (rule zdiv_mono1) simp
    then have "h < 100" by (simp add: h_def)
    with h0 show "length (fmt_02d h) = 2" by (simp add: length_fmt_02d)
  qed
  have dg: "set (fmt_02d h @ fmt_02d m @ fmt_02d c) \<subseteq> set ''0123456789''"
    using fmt_02d_digits [OF h0] fmt_02d_digits [OF m0(1)] fmt_02d_digits [OF c0(1)]
    by (simp del: set_simps list.set)
  have rd: "nat_of_digits (fmt_02d h) = nat h" "nat_of_digits (fmt_02d m) = nat m"
    "nat_of_digits (fmt_02d c) = nat c"
    using h0 m0 c0 by (simp_all add: nat_of_digits_fmt_02d)
  from eq h_def m_def c_def h0 m0 c0 sum lm lc lh lh2 dg rd eq' show ?thesis
    by (intro exI [of _ h] exI [of _ m] exI [of _ c] conjI)
qed

theorem C10_format_timestamp_example:
  "(0::real) \<le> 3725.9 \<and> format_timestamp 3725.9 = ''01:02:05''
   \<and> format_timestamp 3725 = format_timestamp 3725.9"
  using C10_format_timestamp [of "3725.9"]
  by (simp add: format_timestamp_def py_int_def py_floordiv_def py_mod_def fmt_02d_def
      str_nat.simps digit_char_def)

section \<open>Properties of assignment by containment\<close>

lemma find_speaker_Cons:
  "find_speaker (t # ts) m =
     (if turn_contains t m then Some (turn_speaker t) else find_speaker ts m)"
  by (simp add: turn_contains_def)

lemma find_speaker_find:
  "find_speaker turns m = map_option turn_speaker (find (\<lambda>t. turn_contains t m) turns)"
  by (induction turns) (simp_all add: turn_contains_def)

lemma find_speaker_None_iff:
  "find_speaker turns m = None \<longleftrightarrow> (\<forall>t \<in> set turns. \<not> turn_contains t m)"
  by (induction turns) (simp_all add: turn_contains_def)

lemma find_speaker_first:
  "i < length turns \<Longrightarrow> turn_contains (turns ! i) m \<Longrightarrow>
   \<forall>j < i. \<not> turn_contains (turns ! j) m \<Longrightarrow>
   find_speaker turns m = Some (turn_speaker (turns ! i))"
proof (induction turns arbitrary: i)
  case Nil
  then show ?case by simp
next
  case (Cons t ts)
  show ?case
  proof (cases i)
    case 0
    with Cons.prems show ?thesis by (simp add: find_speaker_Cons del: find_speaker.simps)
  next
    case (Suc k)
    with Cons.prems have "\<not> turn_contains t m" by auto
    moreover from Suc Cons.prems have "k < length ts" "turn_contains (ts ! k) m"
      "\<forall>j < k. \<not> turn_contains (ts ! j) m" by auto
    ultimately show ?thesis using Cons.IH [of k] Suc
      by (simp add: find_speaker_Cons del: find_speaker.simps)
  qed
qed

lemma find_speaker_Some:
  "find_speaker turns m = Some s \<Longrightarrow>
   \<exists>i < length turns. turn_contains (turns ! i) m \<and> (\<forall>j < i. \<not> turn_contains (turns ! j) m)
     \<and> s = turn_speaker (turns ! i)"
proof (induction turns)
  case Nil
  then show ?case by simp
next
  case (Cons t ts)
  show ?case
  proof (cases "turn_contains t m")
    case True
    with Cons.prems have "s = turn_speaker t"
      by (simp add: find_speaker_Cons del: find_speaker.simps)
    with True show ?thesis by (intro exI [of _ 0]) simp
  next
    case False
    with Cons.prems have "find_speaker ts m = Some s"
      by (simp add: find_speaker_Cons del: find_speaker.simps)
    from Cons.IH [OF this] obtain i where i: "i < length ts" "turn_contains (ts ! i) m"
      "\<forall>j < i. \<not> turn_contains (ts ! j) m" "s = turn_speaker (ts ! i)" by blast
    have "\<forall>j < Suc i. \<not> turn_contains ((t # ts) ! j) m"
      using False i(3) by (auto simp: less_Suc_eq_0_disj)
    with i show ?thesis by (intro exI [of _ "Suc i"]) simp
  qed
qed

lemma scan_speaker_segments_find:
  "scan_speaker_segments d segs c = (case find_speaker segs c of None \<Rightarrow> d | Some s \<Rightarrow> s)"
  by (induction segs) simp_all

text \<open>
  Claim C3. The speaker of a word against a list of turns is decided by the word's
  midpoint \<open>(start + end) / 2\<close>: it is the speaker of the first turn, in the order of the
  list, whose closed interval contains the midpoint, so that of several overlapping turns
  the earliest in the list wins; it is unset exactly when no turn contains the midpoint.
  The application leaves an unset speaker as \<^verbatim>\<open>None\<close>; the development script
  \<^verbatim>\<open>test_pyannote.py\<close> writes \<^verbatim>\<open>'UNKNOWN'\<close> for it and agrees otherwise.
\<close>

theorem C3_first_containing_turn:
  "(find_speaker turns (word_mid w) = None
      \<longleftrightarrow> (\<forall>t \<in> set turns. \<not> turn_contains t (word_mid w)))
   \<and> (\<forall>i < length turns. turn_contains (turns ! i) (word_mid w)
        \<and> (\<forall>j < i. \<not> turn_contains (turns ! j) (word_mid w))
        \<longrightarrow> find_speaker turns (word_mid w) = Some (turn_speaker (turns ! i)))
   \<and> (\<forall>s. find_speaker turns (word_mid w) = Some s \<longrightarrow>
        (\<exists>i < length turns. turn_contains (turns ! i) (word_mid w)
          \<and> (\<forall>j < i. \<not> turn_contains (turns ! j) (word_mid w)) \<and> s = turn_speaker (turns ! i)))
   \<and> find_speaker turns (word_mid w)
       = map_option turn_speaker (find (\<lambda>t. turn_contains t (word_mid w)) turns)
   \<and> word_mid w = (w_start w + w_end w) / 2
   \<and> (turn_contains t m \<longleftrightarrow> turn_start t \<le> m \<and> m \<le> turn_end t)
   \<and> length (assign_speakers_to_words ws turns) = length ws
   \<and> (\<forall>k < length ws. w_speaker (assign_speakers_to_words ws turns ! k)
        = Some (case find_speaker turns (word_mid (ws ! k)) of None \<Rightarrow> ''UNKNOWN'' | Some s \<Rightarrow> s))"
proof -
  have a: "\<forall>i < length turns. turn_contains (turns ! i) (word_mid w)
        \<and> (\<forall>j < i. \<not> turn_contains (turns ! j) (word_mid w))
        \<longrightarrow> find_speaker turns (word_mid w) = Some (turn_speaker (turns ! i))"
    using find_speaker_first by blast
  have b: "\<forall>s. find_speaker turns (word_mid w) = Some s \<longrightarrow>
        (\<exists>i < length turns. turn_contains (turns ! i) (word_mid w)
          \<and> (\<forall>j < i. \<not> turn_contains (turns ! j) (word_mid w)) \<and> s = turn_speaker (turns ! i))"
    using find_speaker_Some by blast
  have c: "\<forall>k < length ws. w_speaker (assign_speakers_to_words ws turns ! k)
        = Some (case find_speaker turns (word_mid (ws ! k)) of None \<Rightarrow> ''UNKNOWN'' | Some s \<Rightarrow> s)"
    by (simp add: assign_speakers_to_words_def scan_speaker_segments_find word_mid_def)
  have d: "length (assign_speakers_to_words ws turns) = length ws"
    by (simp add: assign_speakers_to_words_def)
  from a b c d find_speaker_None_iff [of turns "word_mid w"]
    find_speaker_find [of turns "word_mid w"] word_mid_def [of w] turn_contains_def [of t m]
  show ?thesis by (intro conjI)
qed

theorem C3_overlapping_turns_example:
  "turn_contains (overlapping_turns ! 0) (word_mid word_in_both)
   \<and> turn_contains (overlapping_turns ! 1) (word_mid word_in_both)
   \<and> find_speaker overlapping_turns (word_mid word_in_both) = Some ''SPEAKER_00''
   \<and> find_speaker overlapping_turns (word_mid word_in_none) = None
   \<and> map w_speaker (assign_speakers_to_words [word_in_both, word_in_none] overlapping_turns)
       = [Some ''SPEAKER_00'', Some ''UNKNOWN'']"
  using C3_first_containing_turn [of overlapping_turns word_in_both]
  by (simp add: overlapping_turns_def word_in_both_def word_in_none_def word_mid_def
      turn_contains_def assign_speakers_to_words_def)

section \<open>Properties of re-segmentation against speaker turns\<close>

lemma reseg_from_empty:
  assumes "ws = [] \<or> c = w_start (hd ws)"
  shows "reseg_finish (foldl reseg_step
      \<lparr>new_segments = acc, current_speaker = sp0, current_words = [], current_start = c\<rparr> ws)
    = acc @ map segment_of_run (runs ws)"
proof (cases ws)
  case Nil
  then show ?thesis by (simp add: reseg_finish_def)
next
  case (Cons w ws')
  with assms have c: "c = w_start w" by simp
  have "[w] \<noteq> []" and "\<forall>v \<in> set [w]. w_speaker v = w_speaker w" by auto
  from reseg_loop_runs [OF this, of acc ws'] show ?thesis
    using Cons c by (simp add: reseg_step_def del: runs.simps)
qed

lemma close_run_label_words:
  "close_run \<lparr>new_segments = acc, current_speaker = sp, current_words = label_words turns cw,
      current_start = c\<rparr>
   = close_run \<lparr>new_segments = acc, current_speaker = sp, current_words = cw,
      current_start = c\<rparr>"
  by (cases cw rule: rev_cases) (simp_all add: close_run_def label_words_def comp_def)

lemma turn_loop_label_words:
  "reseg_finish (foldl (turn_step turns)
      \<lparr>new_segments = acc, current_speaker = sp, current_words = cw, current_start = c\<rparr> ws)
   = reseg_finish (foldl reseg_step
      \<lparr>new_segments = acc, current_speaker = sp, current_words = label_words turns cw,
       current_start = c\<rparr> (label_words turns ws))"
proof (induction ws arbitrary: acc sp cw c)
  case Nil
  show ?case
    using close_run_label_words [of acc sp turns cw c]
    by (simp add: reseg_finish_def label_words_def)
next
  case (Cons w ws)
  let ?l = "w\<lparr>w_speaker := find_speaker turns (word_mid w)\<rparr>"
  have lw: "label_words turns (w # ws) = ?l # label_words turns ws"
    by (simp add: label_words_def)
  have snoc: "label_words turns (cw @ [w]) = label_words turns cw @ [?l]"
    by (simp add: label_words_def)
  have one: "label_words turns [w] = [?l]" by (simp add: label_words_def)
  have emp: "label_words turns cw = [] \<longleftrightarrow> cw = []" by (simp add: label_words_def)
  show ?case
  proof (cases "find_speaker turns (word_mid w) \<noteq> sp \<and> cw \<noteq> []")
    case True
    then have "turn_step turns
        \<lparr>new_segments = acc, current_speaker = sp, current_words = cw, current_start = c\<rparr> w
      = \<lparr>new_segments = acc @ [close_run \<lparr>new_segments = acc, current_speaker = sp,
            current_words = cw, current_start = c\<rparr>],
         current_speaker = find_speaker turns (word_mid w), current_words = [w],
         current_start = w_start w\<rparr>"
      by (simp add: turn_step_def)
    moreover from True have "reseg_step
        \<lparr>new_segments = acc, current_speaker = sp, current_words = label_words turns cw,
         current_start = c\<rparr> ?l
      = \<lparr>new_segments = acc @ [close_run \<lparr>new_segments = acc, current_speaker = sp,
            current_words = cw, current_start = c\<rparr>],
         current_speaker = find_speaker turns (word_mid w),
         current_words = label_words turns [w], current_start = w_start w\<rparr>"
      by (simp add: reseg_step_def emp close_run_label_words one)
    ultimately show ?thesis by (simp add: lw Cons.IH)
  next
    case False
    show ?thesis
    proof (cases "cw = []")
      case True
      then have "turn_step turns
          \<lparr>new_segments = acc, current_speaker = sp, current_words = cw, current_start = c\<rparr> w
        = \<lparr>new_segments = acc, current_speaker = find_speaker turns (word_mid w),
           current_words = cw @ [w], current_start = c\<rparr>"
        by (simp add: turn_step_def)
      moreover from True have "reseg_step
          \<lparr>new_segments = acc, current_speaker = sp, current_words = label_words turns cw,
           current_start = c\<rparr> ?l
        = \<lparr>new_segments = acc, current_speaker = find_speaker turns (word_mid w),
           current_words = label_words turns (cw @ [w]), current_start = c\<rparr>"
        by (simp add: reseg_step_def label_words_def)
      ultimately show ?thesis by (simp add: lw Cons.IH)
    next
      case ne: False
      with False have sp: "find_speaker turns (word_mid w) = sp" by simp
      from ne sp have "turn_step turns
          \<lparr>new_segments = acc, current_speaker = sp, current_words = cw, current_start = c\<rparr> w
        = \<lparr>new_segments = acc, current_speaker = sp,
           current_words = cw @ [w], current_start = c\<rparr>"
        by (simp add: turn_step_def)
      moreover from ne sp have "reseg_step
          \<lparr>new_segments = acc, current_speaker = sp, current_words = label_words turns cw,
           current_start = c\<rparr> ?l
        = \<lparr>new_segments = acc, current_speaker = sp,
           current_words = label_words turns (cw @ [w]), current_start = c\<rparr>"
        by (simp add: reseg_step_def emp snoc)
      ultimately show ?thesis by (simp add: lw Cons.IH)
    qed
  qed
qed

lemma turn_segment_step_eq:
  "turn_segment_step turns acc seg = acc @ resolve_then_merge_segment turns seg"
proof (cases "seg_words seg = []")
  case True
  then show ?thesis by (simp add: turn_segment_step_def resolve_then_merge_segment_def)
next
  case False
  let ?ws = "label_words turns (seg_words seg)"
  have hd: "w_start (hd (seg_words seg)) = w_start (hd ?ws)"
    using False by (cases "seg_words seg") (simp_all add: label_words_def)
  have "turn_segment_step turns acc seg
    = reseg_finish (foldl reseg_step
        \<lparr>new_segments = acc, current_speaker = None, current_words = label_words turns [],
         current_start = w_start (hd ?ws)\<rparr> ?ws)"
    using False by (simp add: turn_segment_step_def turn_loop_label_words hd)
  also have "\<dots> = acc @ map segment_of_run (runs ?ws)"
    by (simp add: label_words_def [of turns "[]"] reseg_from_empty)
  finally show ?thesis
    using False by (simp add: resolve_then_merge_segment_def resegment_runs)
qed

lemma turn_resegment_foldl:
  "foldl (turn_segment_step turns) acc segs
   = acc @ concat (map (resolve_then_merge_segment turns) segs)"
  by (induction segs arbitrary: acc) (simp_all add: turn_segment_step_eq)

text \<open>
  Claim C2, as amended. The turn variant resolves every word's speaker by first-match
  containment and applies the merge rule of the word-label loop to the words of each
  transcription segment on its own: its output is, segment by segment, what
  re-segmentation gives for that segment's labelled words, and a segment without words is
  passed on whole with the speaker of its own midpoint. Words that resolve to the same
  speaker are merged inside one transcription segment; a run ends where the segment ends.
\<close>

theorem C2_turn_resegment_per_segment:
  "turn_resegment turns segs = concat (map (resolve_then_merge_segment turns) segs)
   \<and> (\<forall>seg \<in> set segs. seg_words seg \<noteq> [] \<longrightarrow>
        resolve_then_merge_segment turns seg
          = map segment_of_run (runs (label_words turns (seg_words seg))))
   \<and> (seg_words seg \<noteq> [] \<longrightarrow> turn_resegment turns [seg] = resolve_then_merge turns [seg])
   \<and> length (label_words turns ws) = length ws
   \<and> (\<forall>k < length ws. label_words turns ws ! k
        = (ws ! k)\<lparr>w_speaker := find_speaker turns (word_mid (ws ! k))\<rparr>)"
proof -
  have a: "turn_resegment turns segs = concat (map (resolve_then_merge_segment turns) segs)"
    for segs by (simp add: turn_resegment_def turn_resegment_foldl)
  have b: "\<forall>seg \<in> set segs. seg_words seg \<noteq> [] \<longrightarrow>
        resolve_then_merge_segment turns seg
          = map segment_of_run (runs (label_words turns (seg_words seg)))"
    by (simp add: resolve_then_merge_segment_def resegment_runs)
  have c: "seg_words seg \<noteq> [] \<longrightarrow> turn_resegment turns [seg] = resolve_then_merge turns [seg]"
    by (simp add: a resolve_then_merge_segment_def resolve_then_merge_def)
  have d: "length (label_words turns ws) = length ws" by (simp add: label_words_def)
  have e: "\<forall>k < length ws. label_words turns ws ! k
        = (ws ! k)\<lparr>w_speaker := find_speaker turns (word_mid (ws ! k))\<rparr>"
    by (simp add: label_words_def)
  from a [of segs] b c d e show ?thesis by (intro conjI)
qed

theorem C2_per_segment_example:
  "seg_words (two_segments ! 0) \<noteq> [] \<and> two_segments ! 0 \<in> set two_segments
   \<and> turn_resegment one_turn two_segments =
       [SegmentWithSpeaker ''Hello there.'' 0 1 (Some ''SPEAKER_00''),
        SegmentWithSpeaker ''How are you?'' 1 2 (Some ''SPEAKER_00'')]
   \<and> turn_resegment one_turn [two_segments ! 0] = resolve_then_merge one_turn [two_segments ! 0]"
  using C2_turn_resegment_per_segment [of one_turn two_segments "two_segments ! 0"]
  by (simp add: two_segments_def one_turn_def resolve_then_merge_segment_def resegment_runs
      label_words_def word_mid_def segment_of_run_def strip_def isspace_def
      SegmentWithSpeaker_def)

text \<open>
  Claim C2 as stated fails: two transcription segments whose words all resolve to the same
  speaker stay two output segments, while resolving the labels first and merging over the
  whole file's word sequence gives one.
\<close>

theorem C2_whole_file_merge_counterexample:
  "turn_resegment one_turn two_segments \<noteq> resolve_then_merge one_turn two_segments
   \<and> length (turn_resegment one_turn two_segments) = 2
   \<and> resolve_then_merge one_turn two_segments =
       [SegmentWithSpeaker ''Hello there. How are you?'' 0 2 (Some ''SPEAKER_00'')]"
  by (simp add: turn_resegment_def turn_segment_step_eq resolve_then_merge_segment_def
      resolve_then_merge_def two_segments_def one_turn_def resegment_runs
      label_words_def word_mid_def segment_of_run_def strip_def isspace_def
      SegmentWithSpeaker_def)

section \<open>Properties of the votes\<close>

lemma first_seen_snoc:
  "first_seen (xs @ [x]) = (if x \<in> set xs then first_seen xs else first_seen xs @ [x])"
  by (simp add: first_seen_def)

lemma set_first_seen: "set (first_seen xs) = set xs"
  by (simp add: first_seen_def)

lemma first_seen_Nil: "first_seen [] = []"
  by (simp add: first_seen_def)

lemma first_seen_eq_Nil: "first_seen xs = [] \<longleftrightarrow> xs = []"
  using set_first_seen [of xs] by (metis set_empty)

lemma Counter_snoc: "Counter (xs @ [x]) = counter_add (Counter xs) x"
  by (simp add: Counter_def)

lemma Counter_first_seen:
  "Counter xs = map (\<lambda>k. (k, count_list xs k)) (first_seen xs)"
proof (induction xs rule: rev_induct)
  case Nil
  show ?case by (simp add: Counter_def first_seen_Nil)
next
  case (snoc x xs)
  have keys: "fst ` set (Counter xs) = set xs"
    by (simp add: snoc.IH image_image set_first_seen)
  show ?case
  proof (cases "x \<in> set xs")
    case True
    then have "counter_add (Counter xs) x
      = map (\<lambda>(k, n). if k = x then (k, n + 1) else (k, n)) (Counter xs)"
      by (simp add: counter_add_def keys)
    also have "\<dots> = map (\<lambda>k. (k, count_list (xs @ [x]) k)) (first_seen xs)"
      by (simp add: snoc.IH)
    finally show ?thesis using True by (simp add: Counter_snoc first_seen_snoc)
  next
    case False
    have a: "Counter (xs @ [x]) = Counter xs @ [(x, 1)]"
      using False by (simp add: Counter_snoc counter_add_def keys)
    have b: "Counter xs = map (\<lambda>k. (k, count_list (xs @ [x]) k)) (first_seen xs)"
      using False by (auto simp: snoc.IH set_first_seen)
    have c: "count_list (xs @ [x]) x = 1"
      using False by (simp add: count_list_0_iff)
    have "Counter (xs @ [x])
      = map (\<lambda>k. (k, count_list (xs @ [x]) k)) (first_seen xs) @ [(x, count_list (xs @ [x]) x)]"
      unfolding a c using b by simp
    also have "\<dots> = map (\<lambda>k. (k, count_list (xs @ [x]) k)) (first_seen (xs @ [x]))"
      using False by (simp add: first_seen_snoc)
    finally show ?thesis .
  qed
qed

lemma py_max_first_index:
  "\<exists>i < length (x # xs). py_max_first key x xs = (x # xs) ! i
     \<and> (\<forall>j < length (x # xs). key ((x # xs) ! j) \<le> key ((x # xs) ! i))
     \<and> (\<forall>j < i. key ((x # xs) ! j) < key ((x # xs) ! i))"
proof (induction xs rule: rev_induct)
  case Nil
  show ?case by (simp add: py_max_first_def)
next
  case (snoc y ys)
  then obtain i where i: "i < length (x # ys)" "py_max_first key x ys = (x # ys) ! i"
    "\<forall>j < length (x # ys). key ((x # ys) ! j) \<le> key ((x # ys) ! i)"
    "\<forall>j < i. key ((x # ys) ! j) < key ((x # ys) ! i)" by blast
  let ?zs = "x # ys @ [y]"
  have nth_old: "\<And>j. j < length (x # ys) \<Longrightarrow> ?zs ! j = (x # ys) ! j"
    by (metis append_Cons nth_append)
  have nth_new: "?zs ! length (x # ys) = y"
    by (metis append_Cons nth_append_length)
  have step: "py_max_first key x (ys @ [y])
    = (if key (py_max_first key x ys) < key y then y else py_max_first key x ys)"
    by (simp add: py_max_first_def)
  show ?case
  proof (cases "key ((x # ys) ! i) < key y")
    case True
    have "\<forall>j < length ?zs. key (?zs ! j) \<le> key y"
    proof (intro allI impI)
      fix j assume "j < length ?zs"
      then consider "j < length (x # ys)" | "j = length (x # ys)" by fastforce
      then show "key (?zs ! j) \<le> key y"
      proof cases
        case 1
        with i(3) True show ?thesis by (metis nth_old le_less_trans less_imp_le)
      next
        case 2
        then show ?thesis by (simp only: nth_new)
      qed
    qed
    moreover have "\<forall>j < length (x # ys). key (?zs ! j) < key y"
      using i(3) True by (metis nth_old le_less_trans)
    ultimately show ?thesis using True i(2) step nth_new
      by (intro exI [of _ "length (x # ys)"]) simp
  next
    case False
    have "\<forall>j < length ?zs. key (?zs ! j) \<le> key (?zs ! i)"
    proof (intro allI impI)
      fix j assume "j < length ?zs"
      then consider "j < length (x # ys)" | "j = length (x # ys)" by fastforce
      then show "key (?zs ! j) \<le> key (?zs ! i)"
      proof cases
        case 1
        with i(1,3) show ?thesis by (simp only: nth_old)
      next
        case 2
        with False i(1) show ?thesis by (simp only: nth_new nth_old)
      qed
    qed
    moreover have "\<forall>j < i. key (?zs ! j) < key (?zs ! i)"
      using i(1,4) by (metis nth_old less_trans)
    moreover have "py_max_first key x (ys @ [y]) = ?zs ! i"
      using False i(1,2) step by (simp only: nth_old) simp
    ultimately show ?thesis using i(1) by (intro exI [of _ i]) simp_all
  qed
qed

lemma py_min_first_index:
  "\<exists>i < length (x # xs). py_min_first key x xs = (x # xs) ! i
     \<and> (\<forall>j < length (x # xs). key ((x # xs) ! i) \<le> key ((x # xs) ! j))
     \<and> (\<forall>j < i. key ((x # xs) ! i) < key ((x # xs) ! j))"
proof (induction xs rule: rev_induct)
  case Nil
  show ?case by (simp add: py_min_first_def)
next
  case (snoc y ys)
  then obtain i where i: "i < length (x # ys)" "py_min_first key x ys = (x # ys) ! i"
    "\<forall>j < length (x # ys). key ((x # ys) ! i) \<le> key ((x # ys) ! j)"
    "\<forall>j < i. key ((x # ys) ! i) < key ((x # ys) ! j)" by blast
  let ?zs = "x # ys @ [y]"
  have nth_old: "\<And>j. j < length (x # ys) \<Longrightarrow> ?zs ! j = (x # ys) ! j"
    by (metis append_Cons nth_append)
  have nth_new: "?zs ! length (x # ys) = y"
    by (metis append_Cons nth_append_length)
  have step: "py_min_first key x (ys @ [y])
    = (if key y < key (py_min_first key x ys) then y else py_min_first key x ys)"
    by (simp add: py_min_first_def)
  show ?case
  proof (cases "key y < key ((x # ys) ! i)")
    case True
    have "\<forall>j < length ?zs. key y \<le> key (?zs ! j)"
    proof (intro allI impI)
      fix j assume "j < length ?zs"
      then consider "j < length (x # ys)" | "j = length (x # ys)" by fastforce
      then show "key y \<le> key (?zs ! j)"
      proof cases
        case 1
        with i(3) True show ?thesis by (metis nth_old less_le_trans less_imp_le)
      next
        case 2
        then show ?thesis by (simp only: nth_new)
      qed
    qed
    moreover have "\<forall>j < length (x # ys). key y < key (?zs ! j)"
      using i(3) True by (metis nth_old less_le_trans)
    ultimately show ?thesis using True i(2) step nth_new
      by (intro exI [of _ "length (x # ys)"]) simp
  next
    case False
    have "\<forall>j < length ?zs. key (?zs ! i) \<le> key (?zs ! j)"
    proof (intro allI impI)
      fix j assume "j < length ?zs"
      then consider "j < length (x # ys)" | "j = length (x # ys)" by fastforce
      then show "key (?zs ! i) \<le> key (?zs ! j)"
      proof cases
        case 1
        with i(1,3) show ?thesis by (simp only: nth_old)
      next
        case 2
        with False i(1) show ?thesis by (simp only: nth_new nth_old)
      qed
    qed
    moreover have "\<forall>j < i. key (?zs ! i) < key (?zs ! j)"
      using i(1,4) by (metis nth_old less_trans)
    moreover have "py_min_first key x (ys @ [y]) = ?zs ! i"
      using False i(1,2) step by (simp only: nth_old) simp
    ultimately show ?thesis using i(1) by (intro exI [of _ i]) simp_all
  qed
qed

lemma first_seen_index:
  "i < length (first_seen xs) \<Longrightarrow>
   \<exists>p < length xs. xs ! p = first_seen xs ! i
     \<and> (\<forall>q < p. \<exists>j < i. xs ! q = first_seen xs ! j)"
proof (induction xs arbitrary: i rule: rev_induct)
  case Nil
  then show ?case by (simp add: first_seen_Nil)
next
  case (snoc x xs)
  show ?case
  proof (cases "i < length (first_seen xs)")
    case True
    from snoc.IH [OF True] obtain p where p: "p < length xs" "xs ! p = first_seen xs ! i"
      "\<forall>q < p. \<exists>j < i. xs ! q = first_seen xs ! j" by blast
    have fs: "\<And>j. j \<le> i \<Longrightarrow> first_seen (xs @ [x]) ! j = first_seen xs ! j"
      using True by (simp add: first_seen_snoc nth_append)
    have "(xs @ [x]) ! p = first_seen (xs @ [x]) ! i"
      using p(1,2) fs [of i] by (simp add: nth_append)
    moreover have "\<forall>q < p. \<exists>j < i. (xs @ [x]) ! q = first_seen (xs @ [x]) ! j"
    proof (intro allI impI)
      fix q assume q: "q < p"
      with p(3) obtain j where j: "j < i" "xs ! q = first_seen xs ! j" by blast
      with q p(1) fs [of j] show "\<exists>j < i. (xs @ [x]) ! q = first_seen (xs @ [x]) ! j"
        by (intro exI [of _ j]) (simp add: nth_append)
    qed
    ultimately show ?thesis using p(1) by (intro exI [of _ p]) simp
  next
    case False
    with snoc.prems have new: "x \<notin> set xs" and i: "i = length (first_seen xs)"
      by (auto simp: first_seen_snoc split: if_splits)
    have "(xs @ [x]) ! length xs = first_seen (xs @ [x]) ! i"
      using new i by (simp add: first_seen_snoc)
    moreover have "\<forall>q < length xs. \<exists>j < i. (xs @ [x]) ! q = first_seen (xs @ [x]) ! j"
    proof (intro allI impI)
      fix q assume q: "q < length xs"
      then have "xs ! q \<in> set (first_seen xs)" by (simp add: set_first_seen)
      then obtain j where "j < length (first_seen xs)" "first_seen xs ! j = xs ! q"
        by (auto simp: in_set_conv_nth)
      with q i new show "\<exists>j < i. (xs @ [x]) ! q = first_seen (xs @ [x]) ! j"
        by (intro exI [of _ j]) (simp add: nth_append first_seen_snoc)
    qed
    ultimately show ?thesis by (intro exI [of _ "length xs"]) simp
  qed
qed

lemma most_common_first:
  assumes "votes \<noteq> []"
  shows "\<exists>c cs. Counter votes = c # cs
    \<and> fst (py_max_first snd c cs) \<in> set votes
    \<and> (\<forall>l'. count_list votes l' \<le> count_list votes (fst (py_max_first snd c cs)))
    \<and> (\<exists>p < length votes. votes ! p = fst (py_max_first snd c cs)
         \<and> (\<forall>q < p. count_list votes (votes ! q)
               < count_list votes (fst (py_max_first snd c cs))))"
proof -
  let ?fs = "first_seen votes"
  let ?g = "\<lambda>k. (k, count_list votes k)"
  have items: "Counter votes = map ?g ?fs" by (rule Counter_first_seen)
  from assms have "Counter votes \<noteq> []" by (simp add: items first_seen_eq_Nil)
  then obtain c cs where ccs: "Counter votes = c # cs" by (cases "Counter votes") auto
  from py_max_first_index [where key = snd and x = c and xs = cs] obtain i where i: "i < length (c # cs)"
    "py_max_first snd c cs = (c # cs) ! i"
    "\<forall>j < length (c # cs). snd ((c # cs) ! j) \<le> snd ((c # cs) ! i)"
    "\<forall>j < i. snd ((c # cs) ! j) < snd ((c # cs) ! i)" by blast
  have len: "length (c # cs) = length ?fs" by (simp add: ccs [symmetric] items)
  have nth: "\<And>j. j < length ?fs \<Longrightarrow> (c # cs) ! j = ?g (?fs ! j)"
    by (simp add: ccs [symmetric] items)
  let ?l = "?fs ! i"
  from i(1) len have il: "i < length ?fs" by simp
  have res: "fst (py_max_first snd c cs) = ?l" using i(2) nth [OF il] by simp
  have mem: "?l \<in> set votes" using il set_first_seen [of votes] nth_mem by blast
  have mx: "\<forall>l'. count_list votes l' \<le> count_list votes ?l"
  proof
    fix l'
    show "count_list votes l' \<le> count_list votes ?l"
    proof (cases "l' \<in> set votes")
      case True
      then have "l' \<in> set ?fs" by (simp add: set_first_seen)
      then obtain j where j: "j < length ?fs" "?fs ! j = l'" by (auto simp: in_set_conv_nth)
      with i(3) len have "snd ((c # cs) ! j) \<le> snd ((c # cs) ! i)" by simp
      with j il show ?thesis by (simp add: nth)
    next
      case False
      then show ?thesis by (simp add: count_list_0_iff)
    qed
  qed
  from first_seen_index [OF il] obtain p where p: "p < length votes" "votes ! p = ?l"
    "\<forall>q < p. \<exists>j < i. votes ! q = ?fs ! j" by blast
  have before: "\<forall>q < p. count_list votes (votes ! q) < count_list votes ?l"
  proof (intro allI impI)
    fix q assume "q < p"
    with p(3) obtain j where j: "j < i" "votes ! q = ?fs ! j" by blast
    with i(4) have "snd ((c # cs) ! j) < snd ((c # cs) ! i)" by simp
    moreover from j(1) il have "j < length ?fs" by simp
    ultimately show "count_list votes (votes ! q) < count_list votes ?l"
      using il j(2) by (simp add: nth)
  qed
  from ccs mem mx p(1,2) before show ?thesis unfolding res [symmetric] by blast
qed

lemma assign_word_majority:
  assumes "speaker_votes segs idx \<noteq> []"
  shows "\<exists>l. assign_word segs idx w = Inr l \<and> l \<in> set (speaker_votes segs idx)
    \<and> (\<forall>l'. count_list (speaker_votes segs idx) l' \<le> count_list (speaker_votes segs idx) l)
    \<and> (\<exists>p < length (speaker_votes segs idx). speaker_votes segs idx ! p = l
         \<and> (\<forall>q < p. count_list (speaker_votes segs idx) (speaker_votes segs idx ! q)
               < count_list (speaker_votes segs idx) l))"
proof -
  from most_common_first [OF assms] obtain c cs where
    c: "Counter (speaker_votes segs idx) = c # cs" and
    r: "fst (py_max_first snd c cs) \<in> set (speaker_votes segs idx)"
      "\<forall>l'. count_list (speaker_votes segs idx) l'
          \<le> count_list (speaker_votes segs idx) (fst (py_max_first snd c cs))"
      "\<exists>p < length (speaker_votes segs idx).
          speaker_votes segs idx ! p = fst (py_max_first snd c cs)
          \<and> (\<forall>q < p. count_list (speaker_votes segs idx) (speaker_votes segs idx ! q)
                < count_list (speaker_votes segs idx) (fst (py_max_first snd c cs)))"
    by blast
  have "assign_word segs idx w = Inr (fst (py_max_first snd c cs))"
    using assms c by (simp add: assign_word_def)
  with r show ?thesis by blast
qed

lemma assign_word_nearest:
  assumes "speaker_votes segs idx = []" and "segs \<noteq> []"
  shows "\<exists>i < length segs. assign_word segs idx w = Inr (si_speaker (segs ! i))
    \<and> (\<forall>j < length segs. center_distance w (segs ! i) \<le> center_distance w (segs ! j))
    \<and> (\<forall>j < i. center_distance w (segs ! i) < center_distance w (segs ! j))"
proof -
  from assms(2) obtain s ss where segs: "segs = s # ss" by (cases segs) auto
  from py_min_first_index [where key = "center_distance w" and x = s and xs = ss] obtain i where i: "i < length (s # ss)"
    "py_min_first (center_distance w) s ss = (s # ss) ! i"
    "\<forall>j < length (s # ss). center_distance w ((s # ss) ! i) \<le> center_distance w ((s # ss) ! j)"
    "\<forall>j < i. center_distance w ((s # ss) ! i) < center_distance w ((s # ss) ! j)" by blast
  have "assign_word segs idx w = Inr (si_speaker ((s # ss) ! i))"
    using assms(1) i(2) by (simp add: assign_word_def segs)
  with i(1,3,4) show ?thesis unfolding segs by blast
qed

lemma assign_word_default: "assign_word [] idx w = Inr ''SPEAKER_00''"
  by (simp add: assign_word_def speaker_votes_def)

lemma assign_word_total: "\<exists>l. assign_word segs idx w = Inr l"
proof (cases "speaker_votes segs idx = []")
  case False
  from assign_word_majority [OF this] show ?thesis by blast
next
  case True
  show ?thesis
  proof (cases "segs = []")
    case True
    then show ?thesis by (simp add: assign_word_default)
  next
    case False
    from assign_word_nearest [OF True False] show ?thesis by blast
  qed
qed

lemma vote_words_total:
  "\<exists>ws'. vote_words segs k ws = Inr ws' \<and> length ws' = length ws
     \<and> (\<forall>n < length ws. \<exists>l. assign_word segs (k + n) (ws ! n) = Inr l
           \<and> ws' ! n = (ws ! n)\<lparr>w_speaker := Some l\<rparr>)"
proof (induction ws arbitrary: k)
  case Nil
  show ?case by simp
next
  case (Cons w ws)
  from assign_word_total obtain l where l: "assign_word segs k w = Inr l" by blast
  from Cons.IH [of "Suc k"] obtain ws' where ws': "vote_words segs (Suc k) ws = Inr ws'"
    "length ws' = length ws"
    "\<forall>n < length ws. \<exists>l. assign_word segs (Suc k + n) (ws ! n) = Inr l
        \<and> ws' ! n = (ws ! n)\<lparr>w_speaker := Some l\<rparr>" by blast
  let ?r = "w\<lparr>w_speaker := Some l\<rparr> # ws'"
  have "vote_words segs k (w # ws) = Inr ?r" by (simp add: l ws'(1))
  moreover have "length ?r = length (w # ws)" by (simp add: ws'(2))
  moreover have "\<forall>n < length (w # ws). \<exists>l. assign_word segs (k + n) ((w # ws) ! n) = Inr l
        \<and> ?r ! n = ((w # ws) ! n)\<lparr>w_speaker := Some l\<rparr>"
  proof (intro allI impI)
    fix n assume n: "n < length (w # ws)"
    show "\<exists>l. assign_word segs (k + n) ((w # ws) ! n) = Inr l
        \<and> ?r ! n = ((w # ws) ! n)\<lparr>w_speaker := Some l\<rparr>"
    proof (cases n)
      case 0
      with l show ?thesis by simp
    next
      case (Suc m)
      with n ws'(3) show ?thesis by simp
    qed
  qed
  ultimately show ?case by blast
qed

text \<open>
  Claim C4. After clustering, the speaker of a word is a function of the list of labelled
  valid windows, in their order, of the word's index and of its time stamps; computing it
  never raises. The votes for the word are the labels of the windows that hold its index,
  in window order. With at least one vote the word receives a label with the greatest
  number of votes, and every label voted for before the first vote for that label has
  strictly fewer votes: a tie goes to the label met first. With no vote and at least one
  window the word receives the label of a window whose centre is nearest to the word's
  midpoint, every earlier window being strictly farther: a tie goes to the earlier window.
  With no window at all it receives \<^verbatim>\<open>SPEAKER_00\<close>. The loop over the words gives
  every word the result for its own index.
\<close>

theorem C4_majority_then_nearest:
  "speaker_votes segs idx
     = map si_speaker (filter (\<lambda>seg. idx \<in> set (word_indices seg)) segs)
   \<and> (speaker_votes segs idx \<noteq> [] \<longrightarrow>
        (\<exists>l. assign_word segs idx w = Inr l \<and> l \<in> set (speaker_votes segs idx)
          \<and> (\<forall>l'. count_list (speaker_votes segs idx) l'
                \<le> count_list (speaker_votes segs idx) l)
          \<and> (\<exists>p < length (speaker_votes segs idx). speaker_votes segs idx ! p = l
               \<and> (\<forall>q < p. count_list (speaker_votes segs idx) (speaker_votes segs idx ! q)
                     < count_list (speaker_votes segs idx) l))))
   \<and> (speaker_votes segs idx = [] \<and> segs \<noteq> [] \<longrightarrow>
        (\<exists>i < length segs. assign_word segs idx w = Inr (si_speaker (segs ! i))
          \<and> (\<forall>j < length segs. center_distance w (segs ! i) \<le> center_distance w (segs ! j))
          \<and> (\<forall>j < i. center_distance w (segs ! i) < center_distance w (segs ! j))))
   \<and> (segs = [] \<longrightarrow> assign_word segs idx w = Inr ''SPEAKER_00'')
   \<and> center_distance w s = \<bar>(si_start s + si_end s) / 2 - word_mid w\<bar>
   \<and> (\<exists>ws'. vote_words segs 0 ws = Inr ws' \<and> length ws' = length ws
        \<and> (\<forall>n < length ws. \<exists>l. assign_word segs n (ws ! n) = Inr l
              \<and> ws' ! n = (ws ! n)\<lparr>w_speaker := Some l\<rparr>))"
proof -
  have a: "speaker_votes segs idx \<noteq> [] \<longrightarrow>
        (\<exists>l. assign_word segs idx w = Inr l \<and> l \<in> set (speaker_votes segs idx)
          \<and> (\<forall>l'. count_list (speaker_votes segs idx) l'
                \<le> count_list (speaker_votes segs idx) l)
          \<and> (\<exists>p < length (speaker_votes segs idx). speaker_votes segs idx ! p = l
               \<and> (\<forall>q < p. count_list (speaker_votes segs idx) (speaker_votes segs idx ! q)
                     < count_list (speaker_votes segs idx) l)))"
    using assign_word_majority by blast
  have b: "speaker_votes segs idx = [] \<and> segs \<noteq> [] \<longrightarrow>
        (\<exists>i < length segs. assign_word segs idx w = Inr (si_speaker (segs ! i))
          \<and> (\<forall>j < length segs. center_distance w (segs ! i) \<le> center_distance w (segs ! j))
          \<and> (\<forall>j < i. center_distance w (segs ! i) < center_distance w (segs ! j)))"
    using assign_word_nearest by blast
  have c: "segs = [] \<longrightarrow> assign_word segs idx w = Inr ''SPEAKER_00''"
    by (simp add: assign_word_default)
  have d: "center_distance w s = \<bar>(si_start s + si_end s) / 2 - word_mid w\<bar>"
    by (simp add: center_distance_def word_mid_def)
  have e: "\<exists>ws'. vote_words segs 0 ws = Inr ws' \<and> length ws' = length ws
        \<and> (\<forall>n < length ws. \<exists>l. assign_word segs n (ws ! n) = Inr l
              \<and> ws' ! n = (ws ! n)\<lparr>w_speaker := Some l\<rparr>)"
    using vote_words_total [of segs 0 ws] by simp
  from speaker_votes_def [of segs idx] a b c d e show ?thesis by (intro conjI)
qed

theorem C4_voting_example:
  "speaker_votes voting_windows 0 = [''SPEAKER_01'', ''SPEAKER_00'']
   \<and> assign_word voting_windows 0 (voting_words ! 0) = Inr ''SPEAKER_01''
   \<and> speaker_votes voting_windows 1 = [''SPEAKER_01'', ''SPEAKER_00'', ''SPEAKER_00'']
   \<and> assign_word voting_windows 1 (voting_words ! 1) = Inr ''SPEAKER_00''
   \<and> speaker_votes voting_windows 2 = [] \<and> voting_windows \<noteq> []
   \<and> center_distance (voting_words ! 2) (voting_windows ! 2) = 3 / 2
   \<and> center_distance (voting_words ! 2) (voting_windows ! 3) = 3 / 2
   \<and> assign_word voting_windows 2 (voting_words ! 2) = Inr ''SPEAKER_00''
   \<and> map w_speaker (projr (vote_words voting_windows 0 voting_words))
       = [Some ''SPEAKER_01'', Some ''SPEAKER_00'', Some ''SPEAKER_00'', Some ''SPEAKER_01'']"
proof -
  have ev: "speaker_votes voting_windows 0 = [''SPEAKER_01'', ''SPEAKER_00'']
   \<and> assign_word voting_windows 0 (voting_words ! 0) = Inr ''SPEAKER_01''
   \<and> speaker_votes voting_windows 1 = [''SPEAKER_01'', ''SPEAKER_00'', ''SPEAKER_00'']
   \<and> assign_word voting_windows 1 (voting_words ! 1) = Inr ''SPEAKER_00''
   \<and> speaker_votes voting_windows 2 = [] \<and> voting_windows \<noteq> []
   \<and> center_distance (voting_words ! 2) (voting_windows ! 2) = 3 / 2
   \<and> center_distance (voting_words ! 2) (voting_windows ! 3) = 3 / 2
   \<and> assign_word voting_windows 2 (voting_words ! 2) = Inr ''SPEAKER_00''
   \<and> map w_speaker (projr (vote_words voting_windows 0 voting_words))
       = [Some ''SPEAKER_01'', Some ''SPEAKER_00'', Some ''SPEAKER_00'', Some ''SPEAKER_01'']"
    by (simp add: voting_windows_def voting_words_def speaker_votes_def assign_word_def
        Counter_def counter_add_def py_max_first_def py_min_first_def center_distance_def)
  from C4_majority_then_nearest
      [of voting_windows 0 "voting_words ! 0" "voting_windows ! 0" voting_words]
    C4_majority_then_nearest
      [of voting_windows 2 "voting_words ! 2" "voting_windows ! 2" voting_words]
    ev
  show ?thesis by - assumption
qed

section \<open>Properties of the clustering step\<close>

lemma speaker_label_inj: "speaker_label a = speaker_label b \<Longrightarrow> a = b"
  using fmt_02d_inj [of "int a" "int b"] by (simp add: speaker_label_def)

lemma speaker_label_nonempty: "speaker_label a \<noteq> []"
  by (simp add: speaker_label_def)

lemma card_speaker_labels: "card (speaker_label ` A) = card A"
  by (rule card_image) (simp add: inj_on_def speaker_label_inj)

lemma label_windows_speakers:
  "length ids = length segs \<Longrightarrow>
   \<exists>labelled. label_windows segs ids = Inr labelled \<and> length labelled = length segs
     \<and> map si_speaker labelled = map speaker_label ids
     \<and> map seg_info.truncate labelled = segs"
proof -
  assume len: "length ids = length segs"
  let ?l = "map (\<lambda>(seg, cluster_id). seg_info.extend seg
      (lseg_info.fields (speaker_label cluster_id))) (zip segs ids)"
  have "label_windows segs ids = Inr ?l" using len by (simp add: label_windows_def)
  moreover have "length ?l = length segs" using len by simp
  moreover have "map si_speaker ?l = map speaker_label ids"
    using len by (induction segs ids rule: list_induct2')
      (simp_all add: seg_info.extend_def lseg_info.fields_def)
  moreover have "map seg_info.truncate ?l = segs"
    using len by (induction segs ids rule: list_induct2')
      (simp_all add: seg_info.extend_def lseg_info.fields_def seg_info.truncate_def)
  ultimately show ?thesis by blast
qed

lemma num_clusters_cases:
  "2 \<le> n \<Longrightarrow> r \<le> 0 \<Longrightarrow> num_clusters r n = 2"
  "2 \<le> n \<Longrightarrow> 2 \<le> r \<Longrightarrow> nat (num_clusters r n) = min (nat r) n"
  "1 \<le> n \<Longrightarrow> 1 \<le> num_clusters r n \<and> num_clusters r n \<le> int n"
  by (auto simp: num_clusters_def Let_def min_def)

lemma assign_word_in_labels:
  assumes "segs \<noteq> []" and "assign_word segs idx w = Inr l"
  shows "l \<in> si_speaker ` set segs"
proof (cases "speaker_votes segs idx = []")
  case False
  from assign_word_majority [OF this, of w] assms(2)
  have "l \<in> set (speaker_votes segs idx)" by auto
  then show ?thesis by (auto simp: speaker_votes_def)
next
  case True
  from assign_word_nearest [OF True assms(1), of w] assms(2)
  obtain i where "i < length segs" "l = si_speaker (segs ! i)" by auto
  then show ?thesis by (metis image_eqI nth_mem)
qed

lemma vote_words_in_labels:
  assumes "segs \<noteq> []" and "vote_words segs k ws = Inr ws'"
  shows "\<forall>w' \<in> set ws'. \<exists>l \<in> si_speaker ` set segs. w_speaker w' = Some l"
proof -
  from vote_words_total [of segs k ws] assms(2)
  have len: "length ws' = length ws"
    and each: "\<forall>n < length ws. \<exists>l. assign_word segs (k + n) (ws ! n) = Inr l
      \<and> ws' ! n = (ws ! n)\<lparr>w_speaker := Some l\<rparr>" by auto
  show ?thesis
  proof
    fix w' assume "w' \<in> set ws'"
    then obtain n where n: "n < length ws'" "ws' ! n = w'" by (auto simp: in_set_conv_nth)
    with len each obtain l where l: "assign_word segs (k + n) (ws ! n) = Inr l"
      "ws' ! n = (ws ! n)\<lparr>w_speaker := Some l\<rparr>" by auto
    from assign_word_in_labels [OF assms(1) l(1)] l(2) n(2)
    show "\<exists>l \<in> si_speaker ` set segs. w_speaker w' = Some l" by auto
  qed
qed

text \<open>
  Claim C5. Let \<open>N\<close> be the number of valid embedding windows and let the clustering
  primitive keep its contract: asked for \<open>K\<close> clusters of \<open>N\<close> embeddings, it returns one
  id per embedding and uses exactly the ids \<open>0, \<dots>, K - 1\<close>. The number of clusters asked
  for is \<open>min (if requested > 0 then requested else 2) N\<close>. For \<open>N \<ge> 2\<close> the labelled
  windows then carry exactly that many distinct speaker labels: exactly two when the
  request is zero, exactly \<open>min K N\<close> when the request is \<open>K \<ge> 2\<close>; every label is
  \<^verbatim>\<open>SPEAKER_\<close> followed by the id padded to two digits, and every word's speaker is
  one of the windows' labels. For \<open>N\<close> zero or one nothing is clustered: every word
  receives \<^verbatim>\<open>SPEAKER_00\<close>, whatever the windows hold.
\<close>

theorem C5_number_of_speaker_labels:
  "num_clusters requested n = min (if requested > 0 then requested else 2) (int n)
   \<and> (2 \<le> length valid
        \<and> fit (map fst valid) (num_clusters requested (length valid)) = Some ids
        \<and> length ids = length valid
        \<and> set ids = {0 ..< nat (num_clusters requested (length valid))}
      \<longrightarrow> (\<exists>labelled. cluster_windows fit requested valid = Inr labelled
            \<and> length labelled = length valid
            \<and> map si_speaker labelled = map speaker_label ids
            \<and> card (si_speaker ` set labelled) = nat (num_clusters requested (length valid))
            \<and> (requested = 0 \<longrightarrow> card (si_speaker ` set labelled) = 2)
            \<and> (2 \<le> requested \<longrightarrow>
                  card (si_speaker ` set labelled) = min (nat requested) (length valid))
            \<and> (\<forall>ws'. vote_words labelled 0 ws = Inr ws' \<longrightarrow>
                  (\<forall>w' \<in> set ws'. \<exists>l \<in> si_speaker ` set labelled. w_speaker w' = Some l))))
   \<and> (audio_ok ext
        \<and> length (valid_pairs (extract_embedding ext)
             (sliding_windows ws (if ws \<noteq> [] then w_end (last ws) else 0) 0)) < 2
      \<longrightarrow> wavlm_label ext requested ws
            = Inr (map (\<lambda>w. w\<lparr>w_speaker := Some ''SPEAKER_00''\<rparr>) ws))"
proof -
  have a: "num_clusters requested n = min (if requested > 0 then requested else 2) (int n)"
    by (simp add: num_clusters_def)
  have b: "\<exists>labelled. cluster_windows fit requested valid = Inr labelled
            \<and> length labelled = length valid
            \<and> map si_speaker labelled = map speaker_label ids
            \<and> card (si_speaker ` set labelled) = nat (num_clusters requested (length valid))
            \<and> (requested = 0 \<longrightarrow> card (si_speaker ` set labelled) = 2)
            \<and> (2 \<le> requested \<longrightarrow>
                  card (si_speaker ` set labelled) = min (nat requested) (length valid))
            \<and> (\<forall>ws'. vote_words labelled 0 ws = Inr ws' \<longrightarrow>
                  (\<forall>w' \<in> set ws'. \<exists>l \<in> si_speaker ` set labelled. w_speaker w' = Some l))"
    if n2: "2 \<le> length valid"
      and fit: "fit (map fst valid) (num_clusters requested (length valid)) = Some ids"
      and len: "length ids = length valid"
      and ids: "set ids = {0 ..< nat (num_clusters requested (length valid))}"
  proof -
    from len have "length ids = length (map snd valid)" by simp
    from label_windows_speakers [OF this] obtain labelled where
      l: "label_windows (map snd valid) ids = Inr labelled" "length labelled = length valid"
        "map si_speaker labelled = map speaker_label ids" by auto
    have cw: "cluster_windows fit requested valid = Inr labelled"
      by (simp add: cluster_windows_def fit l(1))
    have "si_speaker ` set labelled = set (map si_speaker labelled)" by simp
    also have "\<dots> = speaker_label ` set ids" by (simp add: l(3))
    finally have "card (si_speaker ` set labelled) = card (set ids)"
      by (simp add: card_speaker_labels)
    then have card: "card (si_speaker ` set labelled) = nat (num_clusters requested (length valid))"
      by (simp add: ids)
    have c0: "requested = 0 \<longrightarrow> card (si_speaker ` set labelled) = 2"
    proof
      assume "requested = 0"
      with n2 have "num_clusters requested (length valid) = 2"
        by (simp add: num_clusters_cases(1))
      with card show "card (si_speaker ` set labelled) = 2" by simp
    qed
    have c2: "2 \<le> requested \<longrightarrow>
        card (si_speaker ` set labelled) = min (nat requested) (length valid)"
    proof
      assume "2 \<le> requested"
      with n2 have "nat (num_clusters requested (length valid)) = min (nat requested) (length valid)"
        by (simp add: num_clusters_cases(2))
      with card show "card (si_speaker ` set labelled) = min (nat requested) (length valid)"
        by simp
    qed
    from n2 l(2) have ne: "labelled \<noteq> []" by auto
    have v: "\<forall>ws'. vote_words labelled 0 ws = Inr ws' \<longrightarrow>
        (\<forall>w' \<in> set ws'. \<exists>l \<in> si_speaker ` set labelled. w_speaker w' = Some l)"
      using vote_words_in_labels [OF ne] by blast
    from cw l(2,3) card c0 c2 v show ?thesis by blast
  qed
  have c: "wavlm_label ext requested ws
      = Inr (map (\<lambda>w. w\<lparr>w_speaker := Some ''SPEAKER_00''\<rparr>) ws)"
    if "audio_ok ext" and "length (valid_pairs (extract_embedding ext)
        (sliding_windows ws (if ws \<noteq> [] then w_end (last ws) else 0) 0)) < 2"
    using that by (simp add: wavlm_label_def Let_def)
  from a b c show ?thesis by blast
qed

lemma single_word_windows:
  "valid_pairs (extract_embedding example_ext)
     (sliding_windows single_word (if single_word \<noteq> [] then w_end (last single_word) else 0) 0)
   = two_windows"
proof -
  have "(if single_word \<noteq> [] then w_end (last single_word) else 0) = 4 / 5"
    by (simp add: single_word_def)
  moreover have "valid_pairs (extract_embedding example_ext) (sliding_windows single_word (4 / 5) 0)
    = two_windows"
    by (simp add: sliding_windows.simps single_word_def word_mid_def valid_pairs_def
        example_ext_def two_windows_def List.map_filter_def Let_def)
  ultimately show ?thesis by (simp only:)
qed

lemma two_windows_clustered:
  "cluster_windows round_robin 0 two_windows
    = Inr [\<lparr>word_indices = [0], si_start = 0, si_end = 4 / 5, si_speaker = ''SPEAKER_00''\<rparr>,
           \<lparr>word_indices = [0], si_start = 1 / 2, si_end = 4 / 5, si_speaker = ''SPEAKER_01''\<rparr>]"
proof -
  have ids: "round_robin (map fst two_windows) (num_clusters 0 (length two_windows)) = Some [0, 1]"
    by (simp add: round_robin_def two_windows_def num_clusters_def upt_rec)
  have sl: "map speaker_label [0, 1] = [''SPEAKER_00'', ''SPEAKER_01'']"
    by (simp add: speaker_label_def fmt_02d_def str_nat.simps digit_char_def)
  show ?thesis
    using sl by (simp add: cluster_windows_def ids label_windows_def)
      (simp add: two_windows_def seg_info.extend_def lseg_info.fields_def)
qed

lemma single_word_labelled:
  "wavlm_label example_ext 0 single_word
      = Inr [\<lparr>w_text = '' yes'', w_start = 3 / 5, w_end = 4 / 5, w_speaker = Some ''SPEAKER_00''\<rparr>]"
proof -
  have "clustering example_ext = round_robin" "audio_ok example_ext"
    by (simp_all add: example_ext_def)
  moreover have "length two_windows = 2" by (simp add: two_windows_def)
  ultimately have "wavlm_label example_ext 0 single_word
    = vote_words [\<lparr>word_indices = [0], si_start = 0, si_end = 4 / 5, si_speaker = ''SPEAKER_00''\<rparr>,
         \<lparr>word_indices = [0], si_start = 1 / 2, si_end = 4 / 5, si_speaker = ''SPEAKER_01''\<rparr>]
        0 single_word"
    by (simp add: wavlm_label_def Let_def single_word_windows two_windows_clustered)
  then show ?thesis
    by (simp add: single_word_def assign_word_def speaker_votes_def Counter_def
        counter_add_def py_max_first_def)
qed

theorem C5_two_windows_example:
  "2 \<le> length two_windows
   \<and> round_robin (map fst two_windows) (num_clusters 0 (length two_windows)) = Some [0, 1]
   \<and> length [0 :: nat, 1] = length two_windows
   \<and> set [0, 1] = {0 ..< nat (num_clusters 0 (length two_windows))}
   \<and> map si_speaker (projr (cluster_windows round_robin 0 two_windows))
       = [''SPEAKER_00'', ''SPEAKER_01'']
   \<and> card (si_speaker ` set (projr (cluster_windows round_robin 0 two_windows))) = 2
   \<and> map w_speaker (projr (wavlm_label example_ext 0 single_word)) = [Some ''SPEAKER_00'']
   \<and> audio_ok (example_ext\<lparr>extract_embedding := (\<lambda>seg. None)\<rparr>)
   \<and> length (valid_pairs (extract_embedding (example_ext\<lparr>extract_embedding := (\<lambda>seg. None)\<rparr>))
        (sliding_windows single_word (if single_word \<noteq> [] then w_end (last single_word) else 0) 0)) < 2
   \<and> wavlm_label (example_ext\<lparr>extract_embedding := (\<lambda>seg. None)\<rparr>) 3 single_word
       = Inr [\<lparr>w_text = '' yes'', w_start = 3 / 5, w_end = 4 / 5, w_speaker = Some ''SPEAKER_00''\<rparr>]"
proof -
  have ids: "round_robin (map fst two_windows) (num_clusters 0 (length two_windows)) = Some [0, 1]"
    by (simp add: round_robin_def two_windows_def num_clusters_def upt_rec)
  have st: "set [0, 1] = {0 ..< nat (num_clusters 0 (length two_windows))}"
    by (auto simp: two_windows_def num_clusters_def)
  have n2: "2 \<le> length two_windows" "length [0 :: nat, 1] = length two_windows"
    by (simp_all add: two_windows_def)
  have none: "valid_pairs (\<lambda>seg. None) segs = []" for segs :: "seg_info list"
    by (simp add: valid_pairs_def List.map_filter_def)
  have d: "wavlm_label (example_ext\<lparr>extract_embedding := (\<lambda>seg. None)\<rparr>) 3 single_word
       = Inr [\<lparr>w_text = '' yes'', w_start = 3 / 5, w_end = 4 / 5, w_speaker = Some ''SPEAKER_00''\<rparr>]"
    by (simp add: wavlm_label_def Let_def none example_ext_def single_word_def)
  have ok: "audio_ok (example_ext\<lparr>extract_embedding := (\<lambda>seg. None)\<rparr>)"
    by (simp add: example_ext_def)
  have few: "length (valid_pairs (extract_embedding (example_ext\<lparr>extract_embedding := (\<lambda>seg. None)\<rparr>))
        (sliding_windows single_word (if single_word \<noteq> [] then w_end (last single_word) else 0) 0)) < 2"
    by (simp add: none)
  have ev: ?thesis
    using n2 ids st ok few d by (simp add: two_windows_clustered single_word_labelled)
  from C5_number_of_speaker_labels
    [where requested = 0 and n = 0 and valid = two_windows and fit = round_robin
      and ids = "[0, 1]" and ws = single_word
      and ext = "example_ext\<lparr>extract_embedding := (\<lambda>seg. None)\<rparr>"] ev
  show ?thesis by - assumption
qed

section \<open>Properties of traces\<close>

lemma progress_writes_append: "progress_writes (xs @ ys) = progress_writes xs @ progress_writes ys"
  by (induction xs rule: progress_writes.induct) simp_all

lemma outputs_written_append: "outputs_written (xs @ ys) = outputs_written xs @ outputs_written ys"
  by (induction xs rule: outputs_written.induct) simp_all

lemma files_begun_append: "files_begun (xs @ ys) = files_begun xs @ files_begun ys"
  by (induction xs rule: files_begun.induct) simp_all

lemma disk_after_append: "disk_after disk (xs @ ys) = disk_after (disk_after disk xs) ys"
  by (induction disk xs rule: disk_after.induct) (simp_all del: fun_upd_apply)

lemma lock_scan_append:
  "lock_scan held xs \<Longrightarrow> lock_scan False ys \<Longrightarrow> lock_scan held (xs @ ys)"
  by (induction held xs rule: lock_scan.induct) auto

lemma outputs_written_none:
  "\<forall>e \<in> set evs. \<forall>path body. e \<noteq> WriteOutput path body \<Longrightarrow> outputs_written evs = []"
  by (induction evs rule: outputs_written.induct) simp_all

lemma files_begun_none:
  "\<forall>e \<in> set evs. \<forall>i n name. e \<noteq> StatusTranscribing i n name \<Longrightarrow> files_begun evs = []"
  by (induction evs rule: files_begun.induct) simp_all

lemma dom_disk_after: "dom disk \<subseteq> dom (disk_after disk evs)"
proof (induction disk evs rule: disk_after.induct)
  case (2 disk path body es)
  have "dom disk \<subseteq> dom (disk(path \<mapsto> body))" by auto
  with 2 show ?case by (simp del: fun_upd_apply dom_fun_upd)
qed simp_all

section \<open>Properties of the selection between the diarizers\<close>

lemma label_windows_labels:
  assumes "label_windows segs ids = Inr labelled"
  shows "length labelled = length segs" and "\<forall>s \<in> set labelled. si_speaker s \<noteq> []"
proof -
  from assms have len: "\<not> length ids < length segs"
    and l: "labelled = map (\<lambda>(seg, cluster_id). seg_info.extend seg
      (lseg_info.fields (speaker_label cluster_id))) (zip segs ids)"
    by (auto simp: label_windows_def split: if_splits)
  from len show "length labelled = length segs" by (simp add: l)
  show "\<forall>s \<in> set labelled. si_speaker s \<noteq> []"
    by (auto simp: l seg_info.extend_def lseg_info.fields_def speaker_label_nonempty)
qed

lemma cluster_windows_labels:
  assumes "cluster_windows fit r valid = Inr labelled"
  shows "length labelled = length valid" and "\<forall>s \<in> set labelled. si_speaker s \<noteq> []"
proof -
  from assms obtain ids where "label_windows (map snd valid) ids = Inr labelled"
    by (auto simp: cluster_windows_def split: option.splits)
  from label_windows_labels [OF this]
  show "length labelled = length valid" and "\<forall>s \<in> set labelled. si_speaker s \<noteq> []"
    by simp_all
qed

lemma wavlm_label_speakers:
  assumes "wavlm_label ext r ws = Inr ws'"
  shows "length ws' = length ws"
    and "\<forall>w' \<in> set ws'. \<exists>s. w_speaker w' = Some s \<and> s \<noteq> []"
proof -
  let ?valid = "valid_pairs (extract_embedding ext)
    (sliding_windows ws (if ws \<noteq> [] then w_end (last ws) else 0) 0)"
  have "length ws' = length ws \<and> (\<forall>w' \<in> set ws'. \<exists>s. w_speaker w' = Some s \<and> s \<noteq> [])"
  proof (cases "length ?valid < 2")
    case True
    with assms have "ws' = map (\<lambda>w. w\<lparr>w_speaker := Some ''SPEAKER_00''\<rparr>) ws"
      by (auto simp: wavlm_label_def Let_def split: if_splits)
    then show ?thesis by auto
  next
    case False
    with assms obtain labelled where
      cw: "cluster_windows (clustering ext) r ?valid = Inr labelled" and
      vw: "vote_words labelled 0 ws = Inr ws'"
      by (auto simp: wavlm_label_def Let_def split: if_splits sum.splits)
    from cluster_windows_labels [OF cw] False have ne: "labelled \<noteq> []"
      and lab: "\<forall>s \<in> set labelled. si_speaker s \<noteq> []" by auto
    from vote_words_total [of labelled 0 ws] vw have "length ws' = length ws" by auto
    moreover from vote_words_in_labels [OF ne vw] lab
    have "\<forall>w' \<in> set ws'. \<exists>s. w_speaker w' = Some s \<and> s \<noteq> []" by fastforce
    ultimately show ?thesis by blast
  qed
  then show "length ws' = length ws"
    and "\<forall>w' \<in> set ws'. \<exists>s. w_speaker w' = Some s \<and> s \<noteq> []" by blast+
qed

lemma speaker_labels_of_Cons:
  "seg_speaker seg = Some s \<Longrightarrow> s \<noteq> [] \<Longrightarrow> speaker_labels_of (seg # segs) \<noteq> []"
  by (simp add: speaker_labels_of_def List.map_filter_def)

lemma resegment_labels_nonempty:
  assumes "ws \<noteq> []" and "\<forall>w \<in> set ws. \<exists>s. w_speaker w = Some s \<and> s \<noteq> []"
  shows "speaker_labels_of (resegment ws) \<noteq> []"
proof -
  from assms(1) obtain w ws' where ws: "ws = w # ws'" by (cases ws) auto
  with assms(2) obtain s where s: "w_speaker w = Some s" "s \<noteq> []" by auto
  have "resegment ws = segment_of_run (w # takeWhile (\<lambda>v. w_speaker v = w_speaker w) ws')
      # map segment_of_run (runs (dropWhile (\<lambda>v. w_speaker v = w_speaker w) ws'))"
    by (simp add: resegment_runs ws)
  moreover have "seg_speaker (segment_of_run (w # takeWhile (\<lambda>v. w_speaker v = w_speaker w) ws'))
      = Some s"
    by (simp add: segment_of_run_def s)
  ultimately show ?thesis using speaker_labels_of_Cons [OF _ s(2)] by simp
qed

lemma wavlm_stage_events:
  "st_events (wavlm_stage cfg fi segs) =
     (if wavlm_loaded cfg then
        [RunWavLM] @ locked_progress 96
          @ (if st_labels (wavlm_stage cfg fi segs) \<noteq> [] then locked_progress 98 else [])
      else [])"
proof (cases "wavlm_loaded cfg \<and> concat (map seg_words segs) \<noteq> []")
  case False
  then show ?thesis by (auto simp: wavlm_stage_def Let_def)
next
  case True
  show ?thesis
  proof (cases "wavlm_label (wavlm fi) (num_speakers cfg) (concat (map seg_words segs))")
    case (Inl e)
    with True show ?thesis by (simp add: wavlm_stage_def Let_def)
  next
    case (Inr labelled)
    from wavlm_label_speakers [OF Inr] True
    have "speaker_labels_of (resegment labelled) \<noteq> []"
      by (intro resegment_labels_nonempty) auto
    with True Inr show ?thesis by (simp add: wavlm_stage_def Let_def)
  qed
qed

lemma wavlm_stage_success:
  assumes "wavlm_loaded cfg" and "concat (map seg_words segs) \<noteq> []"
    and "wavlm_label (wavlm fi) (num_speakers cfg) (concat (map seg_words segs)) = Inr labelled"
  shows "st_segments (wavlm_stage cfg fi segs) = resegment labelled"
    and "st_labels (wavlm_stage cfg fi segs) = speaker_labels_of (resegment labelled)"
    and "st_labels (wavlm_stage cfg fi segs) \<noteq> []"
proof -
  from wavlm_label_speakers [OF assms(3)] assms(2)
  have "speaker_labels_of (resegment labelled) \<noteq> []"
    by (intro resegment_labels_nonempty) auto
  with assms show "st_segments (wavlm_stage cfg fi segs) = resegment labelled"
    and "st_labels (wavlm_stage cfg fi segs) = speaker_labels_of (resegment labelled)"
    and "st_labels (wavlm_stage cfg fi segs) \<noteq> []"
    by (simp_all add: wavlm_stage_def Let_def)
qed

lemma wavlm_stage_failure:
  assumes "wavlm_label (wavlm fi) (num_speakers cfg) (concat (map seg_words segs)) = Inl e"
  shows "st_segments (wavlm_stage cfg fi segs) = segs"
    and "st_labels (wavlm_stage cfg fi segs) = []"
  using assms by (simp_all add: wavlm_stage_def Let_def)

lemma RunPyannote_notin_wavlm: "RunPyannote \<notin> set (st_events (wavlm_stage cfg fi segs))"
  by (simp add: wavlm_stage_events locked_progress_def)

lemma pyannote_stage_events:
  "\<exists>pe. st_events (pyannote_stage cfg fi st) = st_events st @ pe
     \<and> RunWavLM \<notin> set pe
     \<and> (RunPyannote \<in> set pe \<longleftrightarrow> st_labels st = [] \<and> pipeline_loaded cfg)"
proof (cases "st_labels st = [] \<and> pipeline_loaded cfg")
  case False
  then have "pyannote_stage cfg fi st = st" by (auto simp: pyannote_stage_def)
  with False show ?thesis by (intro exI [of _ "[]"]) simp
next
  case True
  show ?thesis
  proof (cases "pyannote fi")
    case None
    with True show ?thesis
      by (intro exI [of _ "[RunPyannote] @ locked_progress 96"])
        (simp add: pyannote_stage_def locked_progress_def)
  next
    case (Some turns)
    with True show ?thesis
      by (intro exI [of _ "[RunPyannote] @ locked_progress 96 @ locked_progress 98"])
        (simp add: pyannote_stage_def locked_progress_def)
  qed
qed

lemma pyannote_stage_failure:
  "pyannote fi = None \<Longrightarrow>
   st_segments (pyannote_stage cfg fi st) = st_segments st
   \<and> (st_labels st = [] \<longrightarrow> st_labels (pyannote_stage cfg fi st) = [])"
  by (simp add: pyannote_stage_def)

lemma pyannote_stage_skipped:
  "\<not> (st_labels st = [] \<and> pipeline_loaded cfg) \<Longrightarrow> pyannote_stage cfg fi st = st"
  by (auto simp: pyannote_stage_def)


lemma diarization_stage_events:
  "set (st_events (diarization_stage cfg fi segs))
     \<subseteq> {RunWavLM, RunPyannote, Acquire, Release, SetProgress 96, SetProgress 98}"
proof -
  from pyannote_stage_events [of cfg fi "wavlm_stage cfg fi segs"] obtain pe where
    pe: "st_events (diarization_stage cfg fi segs) = st_events (wavlm_stage cfg fi segs) @ pe"
    by (auto simp: diarization_stage_def)
  have "set (st_events (wavlm_stage cfg fi segs))
      \<subseteq> {RunWavLM, RunPyannote, Acquire, Release, SetProgress 96, SetProgress 98}"
    by (auto simp: wavlm_stage_events locked_progress_def)
  moreover have "set (st_events (pyannote_stage cfg fi st))
      \<subseteq> set (st_events st) \<union> {RunWavLM, RunPyannote, Acquire, Release, SetProgress 96, SetProgress 98}"
    for st :: stage
    by (auto simp: pyannote_stage_def locked_progress_def split: option.splits)
  ultimately show ?thesis unfolding diarization_stage_def by blast
qed

lemma diarization_stage_no_output:
  "outputs_written (st_events (diarization_stage cfg fi segs)) = []"
  "files_begun (st_events (diarization_stage cfg fi segs)) = []"
  "\<forall>e \<in> set (st_events (diarization_stage cfg fi segs)). \<not> is_check e"
  using diarization_stage_events [of cfg fi segs]
  by (auto intro!: outputs_written_none files_begun_none simp: is_check_def)

lemma finish_file_written:
  assumes "open_ok fi"
  shows "snd (finish_file cfg fi segs) = Written"
    and "outputs_written (fst (finish_file cfg fi segs)) = [fi_stem fi @ ''.txt'']"
    and "last (fst (finish_file cfg fi segs))
        = WriteOutput (fi_stem fi @ ''.txt'')
            (render_body (with_timestamps cfg) (st_segments (diarization_stage cfg fi segs))
               (st_labels (diarization_stage cfg fi segs)))"
  using assms
  by (simp_all add: finish_file_def Let_def outputs_written_append
      diarization_stage_no_output locked_progress_def)

lemma load_diarizers_pipeline:
  "load_diarizers en hw uw wl pw hp tok pl = (wm, dp) \<Longrightarrow> dp \<Longrightarrow> tok \<noteq> [] \<and> \<not> wm \<and> en \<and> hp"
  by (auto simp: load_diarizers_def Let_def split: if_splits)

text \<open>
  Claim C6. Within one file the embedding diarizer comes first: the events of the
  diarization stage are those of the embedding stage followed by those of the external
  stage, and the embedding diarizer is entered exactly when its models are loaded. When it
  returns labelled words (from clustering, or \<^verbatim>\<open>SPEAKER_00\<close> for all of them) the
  segments and labels are those of re-segmenting these words, the labels are not empty,
  and the external diarizer is not entered. The external diarizer is entered exactly when
  the embedding stage left no labels and the pipeline is loaded, and the pipeline is loaded
  only with a non-empty token. An exception in the embedding diarizer leaves the segments
  as they were and no labels, so the next method is tried; an exception in the external
  diarizer leaves the segments it was given and no labels. Whatever the diarizers do, a
  file whose output can be opened is written.
\<close>

theorem C6_diarizer_selection:
  "(\<exists>pe. st_events (diarization_stage cfg fi segs) = st_events (wavlm_stage cfg fi segs) @ pe
        \<and> RunPyannote \<notin> set (st_events (wavlm_stage cfg fi segs)) \<and> RunWavLM \<notin> set pe)
   \<and> (RunWavLM \<in> set (st_events (diarization_stage cfg fi segs)) \<longleftrightarrow> wavlm_loaded cfg)
   \<and> (wavlm_loaded cfg \<and> concat (map seg_words segs) \<noteq> []
        \<and> wavlm_label (wavlm fi) (num_speakers cfg) (concat (map seg_words segs)) = Inr labelled
      \<longrightarrow> RunPyannote \<notin> set (st_events (diarization_stage cfg fi segs))
          \<and> st_segments (diarization_stage cfg fi segs) = resegment labelled
          \<and> st_labels (diarization_stage cfg fi segs) = speaker_labels_of (resegment labelled)
          \<and> st_labels (diarization_stage cfg fi segs) \<noteq> [])
   \<and> (RunPyannote \<in> set (st_events (diarization_stage cfg fi segs))
        \<longleftrightarrow> st_labels (wavlm_stage cfg fi segs) = [] \<and> pipeline_loaded cfg)
   \<and> (wavlm_label (wavlm fi) (num_speakers cfg) (concat (map seg_words segs)) = Inl e
      \<longrightarrow> st_segments (wavlm_stage cfg fi segs) = segs
          \<and> st_labels (wavlm_stage cfg fi segs) = []
          \<and> (RunPyannote \<in> set (st_events (diarization_stage cfg fi segs))
               \<longleftrightarrow> pipeline_loaded cfg))
   \<and> (pyannote fi = None \<and> st_labels (wavlm_stage cfg fi segs) = []
      \<longrightarrow> st_segments (diarization_stage cfg fi segs) = st_segments (wavlm_stage cfg fi segs)
          \<and> st_labels (diarization_stage cfg fi segs) = [])
   \<and> (st_labels (wavlm_stage cfg fi segs) = [] \<and> \<not> pipeline_loaded cfg
      \<longrightarrow> st_labels (diarization_stage cfg fi segs) = [])
   \<and> (open_ok fi \<longrightarrow> snd (finish_file cfg fi segs) = Written
          \<and> outputs_written (fst (finish_file cfg fi segs)) = [fi_stem fi @ ''.txt''])
   \<and> (load_diarizers en hw uw wl pw hp tok pl = (wm, dp) \<and> dp \<longrightarrow> tok \<noteq> [] \<and> \<not> wm)"
proof -
  let ?d = "diarization_stage cfg fi segs" and ?w = "wavlm_stage cfg fi segs"
  from pyannote_stage_events [of cfg fi ?w] obtain pe where
    pe: "st_events ?d = st_events ?w @ pe" "RunWavLM \<notin> set pe"
      "RunPyannote \<in> set pe \<longleftrightarrow> st_labels ?w = [] \<and> pipeline_loaded cfg"
    by (auto simp: diarization_stage_def)
  have a: "\<exists>pe. st_events ?d = st_events ?w @ pe
        \<and> RunPyannote \<notin> set (st_events ?w) \<and> RunWavLM \<notin> set pe"
    using pe(1,2) RunPyannote_notin_wavlm by blast
  have b: "RunWavLM \<in> set (st_events ?d) \<longleftrightarrow> wavlm_loaded cfg"
    using pe(2) by (simp add: pe(1) wavlm_stage_events)
  have d: "RunPyannote \<in> set (st_events ?d) \<longleftrightarrow> st_labels ?w = [] \<and> pipeline_loaded cfg"
    using pe(3) RunPyannote_notin_wavlm [of cfg fi segs] by (simp add: pe(1))
  have c: "RunPyannote \<notin> set (st_events ?d) \<and> st_segments ?d = resegment labelled
      \<and> st_labels ?d = speaker_labels_of (resegment labelled) \<and> st_labels ?d \<noteq> []"
    if "wavlm_loaded cfg \<and> concat (map seg_words segs) \<noteq> []
        \<and> wavlm_label (wavlm fi) (num_speakers cfg) (concat (map seg_words segs)) = Inr labelled"
  proof -
    from that wavlm_stage_success [of cfg segs fi labelled]
    have w: "st_segments ?w = resegment labelled"
      "st_labels ?w = speaker_labels_of (resegment labelled)" "st_labels ?w \<noteq> []" by auto
    then have "?d = ?w" by (simp add: diarization_stage_def pyannote_stage_skipped)
    with w d show ?thesis by simp
  qed
  have e: "st_segments ?w = segs \<and> st_labels ?w = []
      \<and> (RunPyannote \<in> set (st_events ?d) \<longleftrightarrow> pipeline_loaded cfg)"
    if "wavlm_label (wavlm fi) (num_speakers cfg) (concat (map seg_words segs)) = Inl e"
    using wavlm_stage_failure [OF that] d by simp
  have f: "st_segments ?d = st_segments ?w \<and> st_labels ?d = []"
    if "pyannote fi = None \<and> st_labels ?w = []"
    using that pyannote_stage_failure [of fi cfg ?w] by (simp add: diarization_stage_def)
  have g: "st_labels ?d = []" if "st_labels ?w = [] \<and> \<not> pipeline_loaded cfg"
    using that by (simp add: diarization_stage_def pyannote_stage_skipped)
  have h: "open_ok fi \<longrightarrow> snd (finish_file cfg fi segs) = Written
          \<and> outputs_written (fst (finish_file cfg fi segs)) = [fi_stem fi @ ''.txt'']"
    using finish_file_written by blast
  have i: "load_diarizers en hw uw wl pw hp tok pl = (wm, dp) \<and> dp \<longrightarrow> tok \<noteq> [] \<and> \<not> wm"
    using load_diarizers_pipeline by blast
  from a b c d e f g h i show ?thesis by blast
qed

lemma one_segment_words: "concat (map seg_words one_segment) = single_word"
  by (simp add: one_segment_def)

lemma single_word_resegmented:
  "resegment [\<lparr>w_text = '' yes'', w_start = 3 / 5, w_end = 4 / 5, w_speaker = Some ''SPEAKER_00''\<rparr>]
   = [SegmentWithSpeaker ''yes'' (3 / 5) (4 / 5) (Some ''SPEAKER_00'')]"
  by (simp add: resegment_runs segment_of_run_def SegmentWithSpeaker_def strip_def isspace_def)

lemma failing_ext_raises: "wavlm_label failing_ext r ws = Inl ExternalError"
  by (simp add: wavlm_label_def failing_ext_def)

theorem C6_selection_examples:
  "wavlm_loaded both_loaded \<and> pipeline_loaded both_loaded \<and> open_ok one_file
   \<and> concat (map seg_words one_segment) \<noteq> []
   \<and> wavlm_label (wavlm one_file) (num_speakers both_loaded) (concat (map seg_words one_segment))
       = Inr [\<lparr>w_text = '' yes'', w_start = 3 / 5, w_end = 4 / 5, w_speaker = Some ''SPEAKER_00''\<rparr>]
   \<and> st_events (diarization_stage both_loaded one_file one_segment)
       = [RunWavLM, Acquire, SetProgress 96, Release, Acquire, SetProgress 98, Release]
   \<and> st_labels (diarization_stage both_loaded one_file one_segment) = [(0, ''SPEAKER_00'')]
   \<and> wavlm_label (wavlm (one_file\<lparr>wavlm := failing_ext\<rparr>)) (num_speakers both_loaded)
        (concat (map seg_words one_segment)) = Inl ExternalError
   \<and> st_events (diarization_stage both_loaded (one_file\<lparr>wavlm := failing_ext\<rparr>) one_segment)
       = [RunWavLM, Acquire, SetProgress 96, Release,
          RunPyannote, Acquire, SetProgress 96, Release, Acquire, SetProgress 98, Release]
   \<and> st_labels (diarization_stage both_loaded (one_file\<lparr>wavlm := failing_ext\<rparr>) one_segment)
       = [(0, ''SPEAKER_00'')]
   \<and> pyannote (one_file\<lparr>wavlm := failing_ext, pyannote := None\<rparr>) = None
   \<and> st_events (diarization_stage both_loaded
        (one_file\<lparr>wavlm := failing_ext, pyannote := None\<rparr>) one_segment)
       = [RunWavLM, Acquire, SetProgress 96, Release, RunPyannote, Acquire, SetProgress 96, Release]
   \<and> st_segments (diarization_stage both_loaded
        (one_file\<lparr>wavlm := failing_ext, pyannote := None\<rparr>) one_segment) = one_segment
   \<and> fst (finish_file both_loaded (one_file\<lparr>wavlm := failing_ext, pyannote := None\<rparr>) one_segment)
       = [Acquire, SetProgress 95, Release,
          RunWavLM, Acquire, SetProgress 96, Release, RunPyannote, Acquire, SetProgress 96, Release,
          WriteOutput ''talk.txt'' [''yes'' @ [CHR 0x0A, CHR 0x0A]]]
   \<and> st_events (diarization_stage (both_loaded\<lparr>pipeline_loaded := False\<rparr>)
        (one_file\<lparr>wavlm := failing_ext\<rparr>) one_segment)
       = [RunWavLM, Acquire, SetProgress 96, Release]
   \<and> load_diarizers True True False True False True ''hf_token'' True = (False, True)
   \<and> load_diarizers True True True True False True ''hf_token'' True = (True, False)"
proof -
  have a: "wavlm_label (wavlm one_file) (num_speakers both_loaded) (concat (map seg_words one_segment))
       = Inr [\<lparr>w_text = '' yes'', w_start = 3 / 5, w_end = 4 / 5, w_speaker = Some ''SPEAKER_00''\<rparr>]"
    by (simp add: one_file_def both_loaded_def one_segment_words single_word_labelled)
  have ne: "concat (map seg_words one_segment) \<noteq> []"
    by (simp add: one_segment_words single_word_def)
  have w1: "wavlm_stage both_loaded one_file one_segment
    = \<lparr>st_events = [RunWavLM, Acquire, SetProgress 96, Release, Acquire, SetProgress 98, Release],
       st_segments = [SegmentWithSpeaker ''yes'' (3 / 5) (4 / 5) (Some ''SPEAKER_00'')],
       st_labels = [(0, ''SPEAKER_00'')]\<rparr>"
    using a ne
    by (simp add: wavlm_stage_def Let_def single_word_resegmented speaker_labels_of_def
        List.map_filter_def locked_progress_def SegmentWithSpeaker_def)
      (simp add: both_loaded_def)
  have w2: "wavlm_stage cfg fi one_segment
    = (if wavlm_loaded cfg then
         \<lparr>st_events = [RunWavLM, Acquire, SetProgress 96, Release],
           st_segments = one_segment, st_labels = []\<rparr>
       else \<lparr>st_events = [], st_segments = one_segment, st_labels = []\<rparr>)"
    if "wavlm fi = failing_ext" for cfg and fi :: "nat file_input"
    using that by (simp add: wavlm_stage_def Let_def failing_ext_raises locked_progress_def)
  have t: "turn_resegment one_turn one_segment
    = [SegmentWithSpeaker ''yes'' (3 / 5) (4 / 5) (Some ''SPEAKER_00'')]"
    by (simp add: turn_resegment_def turn_segment_step_eq resolve_then_merge_segment_def
        one_segment_def single_word_def one_turn_def label_words_def word_mid_def
        resegment_runs segment_of_run_def SegmentWithSpeaker_def strip_def isspace_def)
  have l: "speaker_labels_of [SegmentWithSpeaker ''yes'' (3 / 5) (4 / 5) (Some ''SPEAKER_00'')]
    = [(0, ''SPEAKER_00'')]"
    by (simp add: speaker_labels_of_def List.map_filter_def SegmentWithSpeaker_def)
  have r: "render_body False one_segment [] = [''yes'' @ [CHR 0x0A, CHR 0x0A]]"
    by (simp add: render_body_def render_segment_def one_segment_def strip_def isspace_def)
  have ev: ?thesis
    using a ne
    by (simp add: diarization_stage_def w1 w2 pyannote_stage_def t l r finish_file_def
        locked_progress_def failing_ext_raises load_diarizers_def)
      (simp add: both_loaded_def one_file_def, simp add: t l r locked_progress_def)
  from C6_diarizer_selection
      [where cfg = both_loaded and fi = one_file and segs = one_segment
        and labelled = "[\<lparr>w_text = '' yes'', w_start = 3 / 5, w_end = 4 / 5,
          w_speaker = Some ''SPEAKER_00''\<rparr>]"
        and e = ExternalError and en = True and hw = True and uw = False and wl = True
        and pw = False and hp = True and tok = "''hf_token''" and pl = True
        and wm = False and dp = True]
    C6_diarizer_selection
      [where cfg = both_loaded and fi = "one_file\<lparr>wavlm := failing_ext, pyannote := None\<rparr>"
        and segs = one_segment and labelled = "[]"
        and e = ExternalError and en = True and hw = True and uw = False and wl = True
        and pw = False and hp = True and tok = "''hf_token''" and pl = True
        and wm = False and dp = True]
    C6_diarizer_selection
      [where cfg = "both_loaded\<lparr>pipeline_loaded := False\<rparr>"
        and fi = "one_file\<lparr>wavlm := failing_ext\<rparr>"
        and segs = one_segment and labelled = "[]"
        and e = ExternalError and en = True and hw = True and uw = False and wl = True
        and pw = False and hp = True and tok = "''hf_token''" and pl = True
        and wm = False and dp = True]
    ev
  show ?thesis by - assumption
qed

section \<open>Properties of one file's run\<close>

lemma each_at_Nil: "each_at P c []"
  by (simp add: each_at_def)

lemma each_at_Cons: "each_at P c (e # es) \<longleftrightarrow> P c e \<and> each_at P (Suc c) es"
proof
  assume a: "each_at P c (e # es)"
  then have "P c e" by (auto simp: each_at_def)
  moreover have "each_at P (Suc c) es"
    unfolding each_at_def
  proof (intro allI impI)
    fix k assume "k < length es"
    with a have "P (c + Suc k) ((e # es) ! Suc k)" unfolding each_at_def by fastforce
    then show "P (Suc c + k) (es ! k)" by simp
  qed
  ultimately show "P c e \<and> each_at P (Suc c) es" by blast
next
  assume a: "P c e \<and> each_at P (Suc c) es"
  show "each_at P c (e # es)"
    unfolding each_at_def
  proof (intro allI impI)
    fix k assume k: "k < length (e # es)"
    show "P (c + k) ((e # es) ! k)"
    proof (cases k)
      case 0
      with a show ?thesis by simp
    next
      case (Suc j)
      with k a have "P (Suc c + j) (es ! j)" by (simp add: each_at_def)
      with Suc show ?thesis by simp
    qed
  qed
qed

lemma each_at_append:
  "each_at P c (xs @ ys) \<longleftrightarrow> each_at P c xs \<and> each_at P (c + length xs) ys"
  by (induction xs arbitrary: c) (simp_all add: each_at_Nil each_at_Cons)

lemma each_at_set: "\<forall>e \<in> set evs. \<forall>c. P c e \<Longrightarrow> each_at P c evs"
  by (simp add: each_at_def)

lemma segments_taken_append: "segments_taken (xs @ ys) = segments_taken xs + segments_taken ys"
  by (induction xs rule: segments_taken.induct) simp_all

lemma errors_reported_append: "errors_reported (xs @ ys) = errors_reported xs @ errors_reported ys"
  by (induction xs rule: errors_reported.induct) simp_all

lemma stop_requested_None: "stop_requested None c = False"
  by (simp add: stop_requested_def)

lemma stop_requested_mono: "stop_requested s c \<Longrightarrow> c \<le> c' \<Longrightarrow> stop_requested s c'"
  by (auto simp: stop_requested_def split: option.splits)

text \<open>One iteration of the segment loop that passes its check.\<close>

lemma segment_loop_Nil:
  "segment_loop s c t r [] acc = ([], if r then Raised else Done acc)"
  by simp

lemma segment_loop_stop:
  "stop_requested s c \<Longrightarrow> segment_loop s c t r (seg # rest) acc = ([CheckStop True], Stopped)"
  by simp

lemma take_segment_events:
  "\<forall>e \<in> set (take_segment t acc seg).
     e = Acquire \<or> e = Release \<or> (\<exists>p. e = SetProgress p) \<or> (\<exists>n. e = SetProcessed n)"
  by (simp add: take_segment_def)

lemma take_segment_lock: "lock_scan False (take_segment t acc seg @ es) = lock_scan False es"
  by (simp add: take_segment_def)

lemma take_segment_counts:
  "count_list (take_segment t acc seg) (CheckStop False) = 0"
  "segments_taken (take_segment t (acc @ [seg']) seg) = 1"
  by (simp_all add: take_segment_def)

lemma take_segment_progress:
  "progress_writes (take_segment t acc seg)
     = (if t > 0 then [min 95 (seg_end seg / t * 100)] else [])"
  by (simp add: take_segment_def)

lemma segment_loop_step:
  "\<not> stop_requested s c \<Longrightarrow>
   segment_loop s c t r (seg # rest) acc =
     (CheckStop False # take_segment t (acc @ [seg]) seg
        @ fst (segment_loop s (Suc (c + length (take_segment t (acc @ [seg]) seg))) t r rest
                 (acc @ [seg])),
      snd (segment_loop s (Suc (c + length (take_segment t (acc @ [seg]) seg))) t r rest
             (acc @ [seg])))"
  by (simp add: Let_def)

lemma segment_loop_Done:
  "snd (segment_loop s c t r segs acc) = Done x \<Longrightarrow>
   x = acc @ segs \<and> \<not> r \<and> segment_loop None c' t r segs acc = segment_loop s c t r segs acc"
proof (induction segs arbitrary: c c' acc)
  case Nil
  then show ?case by (simp split: if_splits)
next
  case (Cons seg rest)
  show ?case
  proof (cases "stop_requested s c")
    case True
    with Cons.prems show ?thesis by simp
  next
    case False
    let ?d = "length (take_segment t (acc @ [seg]) seg)"
    have n: "\<not> stop_requested None c'" by (simp add: stop_requested_None)
    from Cons.prems have "snd (segment_loop s (Suc (c + ?d)) t r rest (acc @ [seg])) = Done x"
      by (simp only: segment_loop_step [OF False] snd_conv)
    from Cons.IH [OF this, of "Suc (c' + ?d)"] have x: "x = (acc @ [seg]) @ rest" and r: "\<not> r"
      and eq: "segment_loop None (Suc (c' + ?d)) t r rest (acc @ [seg])
        = segment_loop s (Suc (c + ?d)) t r rest (acc @ [seg])" by blast+
    have "segment_loop None c' t r (seg # rest) acc = segment_loop s c t r (seg # rest) acc"
      by (simp only: segment_loop_step [OF False] segment_loop_step [OF n] eq)
    with x r show ?thesis by simp
  qed
qed

lemma segment_loop_no_stop:
  "snd (segment_loop None c t r segs acc) = (if r then Raised else Done (acc @ segs))"
  by (induction segs arbitrary: c acc) (simp_all add: stop_requested_None Let_def)

lemma segment_loop_events:
  "\<forall>e \<in> set (fst (segment_loop s c t r segs acc)).
     is_check e \<or> e = Acquire \<or> e = Release \<or> (\<exists>p. e = SetProgress p) \<or> (\<exists>n. e = SetProcessed n)"
proof (induction segs arbitrary: c acc)
  case Nil
  show ?case by simp
next
  case (Cons seg rest)
  show ?case
  proof (cases "stop_requested s c")
    case True
    then show ?thesis by (simp add: is_check_def)
  next
    case False
    from Cons.IH [of "Suc (c + length (take_segment t (acc @ [seg]) seg))" "acc @ [seg]"]
      take_segment_events [of t "acc @ [seg]" seg]
    show ?thesis
      by (simp only: segment_loop_step [OF False] fst_conv) (auto simp: is_check_def)
  qed
qed

lemma segment_loop_checks:
  "each_at (\<lambda>c e. \<forall>b. e = CheckStop b \<longrightarrow> b = stop_requested s c) c
     (fst (segment_loop s c t r segs acc))"
proof (induction segs arbitrary: c acc)
  case Nil
  show ?case by (simp add: each_at_Nil)
next
  case (Cons seg rest)
  show ?case
  proof (cases "stop_requested s c")
    case True
    then show ?thesis by (simp add: each_at_Cons each_at_Nil)
  next
    case False
    let ?ts = "take_segment t (acc @ [seg]) seg"
    have "each_at (\<lambda>c e. \<forall>b. e = CheckStop b \<longrightarrow> b = stop_requested s c) (Suc c) ?ts"
      using take_segment_events [of t "acc @ [seg]" seg] by (intro each_at_set) auto
    with Cons.IH [of "Suc (c + length ?ts)" "acc @ [seg]"] False show ?thesis
      by (simp only: segment_loop_step [OF False] fst_conv)
        (simp add: each_at_Cons each_at_append)
  qed
qed

lemma segment_loop_counts:
  "count_list (fst (segment_loop s c t r segs acc)) (CheckStop False)
     = segments_taken (fst (segment_loop s c t r segs acc))"
proof (induction segs arbitrary: c acc)
  case Nil
  show ?case by simp
next
  case (Cons seg rest)
  show ?case
  proof (cases "stop_requested s c")
    case True
    then show ?thesis by simp
  next
    case False
    from Cons.IH [of "Suc (c + length (take_segment t (acc @ [seg]) seg))" "acc @ [seg]"]
    show ?thesis
      by (simp only: segment_loop_step [OF False] fst_conv)
        (simp add: segments_taken_append take_segment_counts)
  qed
qed

lemma segment_loop_lock: "lock_scan False (fst (segment_loop s c t r segs acc))"
proof (induction segs arbitrary: c acc)
  case Nil
  show ?case by simp
next
  case (Cons seg rest)
  show ?case
  proof (cases "stop_requested s c")
    case True
    then show ?thesis by simp
  next
    case False
    from Cons.IH [of "Suc (c + length (take_segment t (acc @ [seg]) seg))" "acc @ [seg]"]
    show ?thesis
      by (simp only: segment_loop_step [OF False] fst_conv) (simp add: take_segment_lock)
  qed
qed

lemma segment_loop_Stopped:
  "snd (segment_loop s c t r segs acc) = Stopped \<Longrightarrow>
   fst (segment_loop s c t r segs acc) \<noteq> []
   \<and> last (fst (segment_loop s c t r segs acc)) = CheckStop True"
proof (induction segs arbitrary: c acc)
  case Nil
  then show ?case by (simp split: if_splits)
next
  case (Cons seg rest)
  show ?case
  proof (cases "stop_requested s c")
    case True
    then show ?thesis by simp
  next
    case False
    let ?d = "length (take_segment t (acc @ [seg]) seg)"
    from Cons.prems have "snd (segment_loop s (Suc (c + ?d)) t r rest (acc @ [seg])) = Stopped"
      by (simp only: segment_loop_step [OF False] snd_conv)
    from Cons.IH [OF this] show ?thesis
      by (simp only: segment_loop_step [OF False] fst_conv) simp
  qed
qed

lemma segment_loop_no_progress:
  "\<not> t > 0 \<Longrightarrow> progress_writes (fst (segment_loop s c t r segs acc)) = []"
proof (induction segs arbitrary: c acc)
  case Nil
  show ?case by simp
next
  case (Cons seg rest)
  show ?case
  proof (cases "stop_requested s c")
    case True
    then show ?thesis by (simp only: segment_loop_stop fst_conv) simp
  next
    case False
    from Cons.IH [OF Cons.prems] Cons.prems show ?thesis
      by (simp only: segment_loop_step [OF False] fst_conv progress_writes.simps
          progress_writes_append take_segment_progress) simp
  qed
qed

lemma segment_loop_progress:
  assumes "sorted (map seg_end segs)" and "\<forall>seg \<in> set segs. lb \<le> seg_end seg"
  shows "sorted (progress_writes (fst (segment_loop s c t r segs acc)))
    \<and> (\<forall>p \<in> set (progress_writes (fst (segment_loop s c t r segs acc))).
          min 95 (lb / t * 100) \<le> p \<and> p \<le> 95)"
proof (cases "t > 0")
  case False
  then show ?thesis by (simp add: segment_loop_no_progress)
next
  case t: True
  from assms show ?thesis
  proof (induction segs arbitrary: c acc lb)
    case Nil
    show ?case by simp
  next
    case (Cons seg rest)
    show ?case
    proof (cases "stop_requested s c")
      case True
      then show ?thesis by (simp only: segment_loop_stop fst_conv) simp
    next
      case False
      let ?rec = "progress_writes (fst (segment_loop s
        (Suc (c + length (take_segment t (acc @ [seg]) seg))) t r rest (acc @ [seg])))"
      from Cons.prems have "sorted (map seg_end rest)"
        and "\<forall>x \<in> set rest. seg_end seg \<le> seg_end x" and lb: "lb \<le> seg_end seg" by auto
      from Cons.IH [OF this(1,2)] have rec: "sorted ?rec"
        "\<forall>p \<in> set ?rec. min 95 (seg_end seg / t * 100) \<le> p \<and> p \<le> 95" by blast+
      have pw: "progress_writes (fst (segment_loop s c t r (seg # rest) acc))
        = min 95 (seg_end seg / t * 100) # ?rec"
        using t by (simp only: segment_loop_step [OF False] fst_conv progress_writes.simps
            progress_writes_append take_segment_progress) simp
      from lb t have "lb / t * 100 \<le> seg_end seg / t * 100"
        by (simp add: divide_right_mono)
      then have m: "min 95 (lb / t * 100) \<le> min 95 (seg_end seg / t * 100)" by simp
      from rec m show ?thesis unfolding pw by auto
    qed
  qed
qed

lemma errors_reported_none:
  "\<forall>e \<in> set evs. \<forall>name. e \<noteq> StatusError name \<Longrightarrow> errors_reported evs = []"
  by (induction evs rule: errors_reported.induct) simp_all

lemma diarization_stage_progress:
  "progress_writes (st_events (diarization_stage cfg fi segs))
     \<in> {[], [96], [96, 98], [96, 96], [96, 96, 98]}"
proof -
  let ?w = "wavlm_stage cfg fi segs"
  have w: "progress_writes (st_events ?w)
    = (if wavlm_loaded cfg then 96 # (if st_labels ?w \<noteq> [] then [98] else []) else [])"
    by (simp add: wavlm_stage_events locked_progress_def)
  show ?thesis
  proof (cases "st_labels ?w = [] \<and> pipeline_loaded cfg")
    case False
    then have "diarization_stage cfg fi segs = ?w"
      by (simp add: diarization_stage_def pyannote_stage_skipped)
    then show ?thesis by (simp add: w)
  next
    case True
    then show ?thesis
      by (cases "pyannote fi")
        (simp_all add: diarization_stage_def pyannote_stage_def progress_writes_append w
          locked_progress_def)
  qed
qed

lemma diarization_stage_lock: "lock_scan False (st_events (diarization_stage cfg fi segs))"
proof -
  let ?w = "wavlm_stage cfg fi segs"
  have w: "lock_scan False (st_events ?w)"
    by (simp add: wavlm_stage_events locked_progress_def)
  show ?thesis
  proof (cases "st_labels ?w = [] \<and> pipeline_loaded cfg")
    case False
    then have "diarization_stage cfg fi segs = ?w"
      by (simp add: diarization_stage_def pyannote_stage_skipped)
    then show ?thesis by (simp add: w)
  next
    case True
    have "lock_scan False ([RunPyannote] @ locked_progress 96)"
      "lock_scan False ([RunPyannote] @ locked_progress 96 @ locked_progress 98)"
      by (simp_all add: locked_progress_def)
    with True w show ?thesis
      by (cases "pyannote fi")
        (simp_all add: diarization_stage_def pyannote_stage_def lock_scan_append)
  qed
qed

lemma finish_file_progress:
  "progress_writes (fst (finish_file cfg fi segs))
     = 95 # progress_writes (st_events (diarization_stage cfg fi segs))"
  by (simp add: finish_file_def Let_def progress_writes_append locked_progress_def)

lemma finish_file_lock: "lock_scan False (fst (finish_file cfg fi segs))"
proof -
  have "lock_scan False (st_events (diarization_stage cfg fi segs) @ [e])"
    if "e = StatusError n \<or> e = WriteOutput p b" for e n p b
    using that by (intro lock_scan_append diarization_stage_lock) auto
  then show ?thesis by (simp add: finish_file_def Let_def locked_progress_def)
qed

lemma finish_file_events:
  "\<forall>e \<in> set (fst (finish_file cfg fi segs)).
     \<not> is_check e \<and> (\<forall>i n name. e \<noteq> StatusTranscribing i n name)
     \<and> (\<forall>n. e \<noteq> SetProcessed n)"
  using diarization_stage_events [of cfg fi segs]
  by (auto simp: finish_file_def Let_def locked_progress_def is_check_def)

lemma finish_file_result:
  "snd (finish_file cfg fi segs) = (if open_ok fi then Written else Failed)"
  "outputs_written (fst (finish_file cfg fi segs))
     = (if open_ok fi then [fi_stem fi @ ''.txt''] else [])"
  "errors_reported (fst (finish_file cfg fi segs)) = (if open_ok fi then [] else [fi_name fi])"
  "\<not> open_ok fi \<Longrightarrow> last (fst (finish_file cfg fi segs)) = StatusError (fi_name fi)"
proof -
  have "errors_reported (st_events (diarization_stage cfg fi segs)) = []"
    using diarization_stage_events [of cfg fi segs]
    by (intro errors_reported_none) auto
  then show "errors_reported (fst (finish_file cfg fi segs))
      = (if open_ok fi then [] else [fi_name fi])"
    by (simp add: finish_file_def Let_def errors_reported_append locked_progress_def)
qed (simp_all add: finish_file_def Let_def outputs_written_append diarization_stage_no_output
    locked_progress_def)

lemma transcribe_file_unfold:
  "transcribe_file s c cfg fi =
     (if transcribe_raises fi then ([StatusError (fi_name fi)], Failed)
      else
        (case snd (segment_loop s (Suc (Suc (Suc (Suc c)))) (duration fi) (stream_raises fi)
                     (stream fi) []) of
           Stopped \<Rightarrow>
             ([Acquire, SetProgress 0, SetProcessed 0, Release]
                @ fst (segment_loop s (Suc (Suc (Suc (Suc c)))) (duration fi) (stream_raises fi)
                         (stream fi) []),
              Cancelled)
         | Raised \<Rightarrow>
             ([Acquire, SetProgress 0, SetProcessed 0, Release]
                @ fst (segment_loop s (Suc (Suc (Suc (Suc c)))) (duration fi) (stream_raises fi)
                         (stream fi) [])
                @ [StatusError (fi_name fi)],
              Failed)
         | Done segments_list \<Rightarrow>
             ([Acquire, SetProgress 0, SetProcessed 0, Release]
                @ fst (segment_loop s (Suc (Suc (Suc (Suc c)))) (duration fi) (stream_raises fi)
                         (stream fi) [])
                @ fst (finish_file cfg fi segments_list),
              snd (finish_file cfg fi segments_list))))"
  by (simp add: transcribe_file_def Let_def split: loop_result.split)

lemma transcribe_file_cases [case_names call_raises loop_stopped loop_raised loop_done]:
  obtains "transcribe_raises fi"
      "transcribe_file s c cfg fi = ([StatusError (fi_name fi)], Failed)"
  | loop where "\<not> transcribe_raises fi"
      "segment_loop s (Suc (Suc (Suc (Suc c)))) (duration fi) (stream_raises fi) (stream fi) [] = (loop, Stopped)"
      "transcribe_file s c cfg fi
        = ([Acquire, SetProgress 0, SetProcessed 0, Release] @ loop, Cancelled)"
  | loop where "\<not> transcribe_raises fi"
      "segment_loop s (Suc (Suc (Suc (Suc c)))) (duration fi) (stream_raises fi) (stream fi) [] = (loop, Raised)"
      "transcribe_file s c cfg fi
        = ([Acquire, SetProgress 0, SetProcessed 0, Release] @ loop @ [StatusError (fi_name fi)],
           Failed)"
  | loop segs where "\<not> transcribe_raises fi"
      "segment_loop s (Suc (Suc (Suc (Suc c)))) (duration fi) (stream_raises fi) (stream fi) [] = (loop, Done segs)"
      "transcribe_file s c cfg fi
        = ([Acquire, SetProgress 0, SetProcessed 0, Release] @ loop @ fst (finish_file cfg fi segs),
           snd (finish_file cfg fi segs))"
proof (cases "transcribe_raises fi")
  case True
  then have "transcribe_file s c cfg fi = ([StatusError (fi_name fi)], Failed)"
    by (simp add: transcribe_file_unfold)
  with True show ?thesis by (rule that(1))
next
  case False
  obtain loop res where r:
    "segment_loop s (Suc (Suc (Suc (Suc c)))) (duration fi) (stream_raises fi) (stream fi) [] = (loop, res)"
    by (cases "segment_loop s (Suc (Suc (Suc (Suc c)))) (duration fi) (stream_raises fi) (stream fi) []") auto
  show ?thesis
  proof (cases res)
    case Stopped
    with False r show ?thesis by (intro that(2) [of loop]) (simp_all add: transcribe_file_unfold)
  next
    case Raised
    with False r show ?thesis by (intro that(3) [of loop]) (simp_all add: transcribe_file_unfold)
  next
    case (Done segs)
    with False r show ?thesis
      by (intro that(4) [of loop segs]) (simp_all add: transcribe_file_unfold)
  qed
qed

lemma no_checks_counts:
  "\<forall>e \<in> set evs. \<not> is_check e \<and> (\<forall>n. e \<noteq> SetProcessed n) \<Longrightarrow>
   count_list evs (CheckStop False) = 0 \<and> segments_taken evs = 0"
  by (induction evs rule: segments_taken.induct) (simp_all add: is_check_def)

lemma transcribe_file_checks:
  "each_at (\<lambda>c e. \<forall>b. e = CheckStop b \<longrightarrow> b = stop_requested s c) c
     (fst (transcribe_file s c cfg fi))"
proof (cases s c cfg fi rule: transcribe_file_cases)
  case call_raises
  then show ?thesis by (simp add: each_at_Cons each_at_Nil)
next
  case (loop_stopped loop)
  from segment_loop_checks [of s "Suc (Suc (Suc (Suc c)))" "duration fi" "stream_raises fi" "stream fi" "[]"]
  show ?thesis by (simp add: loop_stopped each_at_Cons)
next
  case (loop_raised loop)
  from segment_loop_checks [of s "Suc (Suc (Suc (Suc c)))" "duration fi" "stream_raises fi" "stream fi" "[]"]
  show ?thesis by (simp add: loop_raised each_at_Cons each_at_append each_at_Nil)
next
  case (loop_done loop segs)
  have "each_at (\<lambda>c e. \<forall>b. e = CheckStop b \<longrightarrow> b = stop_requested s c) c'
      (fst (finish_file cfg fi segs))" for c'
    using finish_file_events [of cfg fi segs] by (intro each_at_set) (auto simp: is_check_def)
  with segment_loop_checks [of s "Suc (Suc (Suc (Suc c)))" "duration fi" "stream_raises fi" "stream fi" "[]"]
  show ?thesis by (simp add: loop_done each_at_Cons each_at_append)
qed

lemma transcribe_file_no_begin:
  "\<forall>e \<in> set (fst (transcribe_file s c cfg fi)). \<forall>i n name. e \<noteq> StatusTranscribing i n name"
proof (cases s c cfg fi rule: transcribe_file_cases)
  case call_raises
  then show ?thesis by simp
next
  case (loop_stopped loop)
  with segment_loop_events [of s "Suc (Suc (Suc (Suc c)))" "duration fi" "stream_raises fi" "stream fi" "[]"]
  show ?thesis by (auto simp: is_check_def)
next
  case (loop_raised loop)
  with segment_loop_events [of s "Suc (Suc (Suc (Suc c)))" "duration fi" "stream_raises fi" "stream fi" "[]"]
  show ?thesis by (auto simp: is_check_def)
next
  case (loop_done loop segs)
  with segment_loop_events [of s "Suc (Suc (Suc (Suc c)))" "duration fi" "stream_raises fi" "stream fi" "[]"]
    finish_file_events [of cfg fi segs]
  show ?thesis by (auto simp: is_check_def)
qed

lemma transcribe_file_counts:
  "count_list (fst (transcribe_file s c cfg fi)) (CheckStop False)
     = segments_taken (fst (transcribe_file s c cfg fi))"
proof (cases s c cfg fi rule: transcribe_file_cases)
  case call_raises
  then show ?thesis by simp
next
  case (loop_stopped loop)
  with segment_loop_counts [of s "Suc (Suc (Suc (Suc c)))" "duration fi" "stream_raises fi" "stream fi" "[]"]
  show ?thesis by simp
next
  case (loop_raised loop)
  with segment_loop_counts [of s "Suc (Suc (Suc (Suc c)))" "duration fi" "stream_raises fi" "stream fi" "[]"]
  show ?thesis by (simp add: segments_taken_append)
next
  case (loop_done loop segs)
  with segment_loop_counts [of s "Suc (Suc (Suc (Suc c)))" "duration fi" "stream_raises fi" "stream fi" "[]"]
    no_checks_counts [of "fst (finish_file cfg fi segs)"] finish_file_events [of cfg fi segs]
  show ?thesis by (simp add: segments_taken_append)
qed

lemma transcribe_file_lock: "lock_scan False (fst (transcribe_file s c cfg fi))"
proof (cases s c cfg fi rule: transcribe_file_cases)
  case call_raises
  then show ?thesis by simp
next
  case (loop_stopped loop)
  with segment_loop_lock [of s "Suc (Suc (Suc (Suc c)))" "duration fi" "stream_raises fi" "stream fi" "[]"]
  show ?thesis by simp
next
  case (loop_raised loop)
  with segment_loop_lock [of s "Suc (Suc (Suc (Suc c)))" "duration fi" "stream_raises fi" "stream fi" "[]"]
  have "lock_scan False (loop @ [StatusError (fi_name fi)])"
    by (intro lock_scan_append) simp_all
  with loop_raised show ?thesis by simp
next
  case (loop_done loop segs)
  with segment_loop_lock [of s "Suc (Suc (Suc (Suc c)))" "duration fi" "stream_raises fi" "stream fi" "[]"]
  have "lock_scan False (loop @ fst (finish_file cfg fi segs))"
    by (intro lock_scan_append finish_file_lock) simp
  with loop_done show ?thesis by simp
qed

lemma transcribe_file_Failed:
  "snd (transcribe_file s c cfg fi) = Failed \<Longrightarrow>
   outputs_written (fst (transcribe_file s c cfg fi)) = []
   \<and> last (fst (transcribe_file s c cfg fi)) = StatusError (fi_name fi)"
proof (cases s c cfg fi rule: transcribe_file_cases)
  case call_raises
  then show ?thesis by simp
next
  case (loop_stopped loop)
  moreover assume "snd (transcribe_file s c cfg fi) = Failed"
  ultimately show ?thesis by simp
next
  case (loop_raised loop)
  with segment_loop_events [of s "Suc (Suc (Suc (Suc c)))" "duration fi" "stream_raises fi" "stream fi" "[]"]
  have "outputs_written loop = []" by (intro outputs_written_none) (auto simp: is_check_def)
  with loop_raised show ?thesis by (simp add: outputs_written_append)
next
  case (loop_done loop segs)
  moreover assume "snd (transcribe_file s c cfg fi) = Failed"
  ultimately have no: "\<not> open_ok fi" by (simp add: finish_file_result split: if_splits)
  from loop_done segment_loop_events [of s "Suc (Suc (Suc (Suc c)))" "duration fi" "stream_raises fi" "stream fi" "[]"]
  have "outputs_written loop = []" by (intro outputs_written_none) (auto simp: is_check_def)
  moreover from no have "fst (finish_file cfg fi segs) \<noteq> []"
    by (simp add: finish_file_def Let_def)
  ultimately show ?thesis using no loop_done
    by (simp add: outputs_written_append finish_file_result)
qed

lemma transcribe_file_Cancelled:
  "snd (transcribe_file s c cfg fi) = Cancelled \<Longrightarrow>
   outputs_written (fst (transcribe_file s c cfg fi)) = []
   \<and> last (fst (transcribe_file s c cfg fi)) = CheckStop True
   \<and> RunWavLM \<notin> set (fst (transcribe_file s c cfg fi))
   \<and> RunPyannote \<notin> set (fst (transcribe_file s c cfg fi))"
proof (cases s c cfg fi rule: transcribe_file_cases)
  case call_raises
  moreover assume "snd (transcribe_file s c cfg fi) = Cancelled"
  ultimately show ?thesis by simp
next
  case (loop_stopped loop)
  from loop_stopped segment_loop_events [of s "Suc (Suc (Suc (Suc c)))" "duration fi" "stream_raises fi" "stream fi" "[]"]
  have ev: "\<forall>e \<in> set loop. is_check e \<or> e = Acquire \<or> e = Release
      \<or> (\<exists>p. e = SetProgress p) \<or> (\<exists>n. e = SetProcessed n)" by simp
  then have "outputs_written loop = []" by (intro outputs_written_none) (auto simp: is_check_def)
  moreover from ev have "RunWavLM \<notin> set loop" "RunPyannote \<notin> set loop"
    by (auto simp: is_check_def)
  moreover from loop_stopped
    segment_loop_Stopped [of s "Suc (Suc (Suc (Suc c)))" "duration fi" "stream_raises fi" "stream fi" "[]"]
  have "loop \<noteq> []" "last loop = CheckStop True" by simp_all
  ultimately show ?thesis using loop_stopped by (simp add: outputs_written_append)
next
  case (loop_raised loop)
  moreover assume "snd (transcribe_file s c cfg fi) = Cancelled"
  ultimately show ?thesis by simp
next
  case (loop_done loop segs)
  moreover assume "snd (transcribe_file s c cfg fi) = Cancelled"
  ultimately show ?thesis by (simp add: finish_file_result split: if_splits)
qed

lemma transcribe_file_after_loop:
  assumes "\<not> transcribe_raises fi"
    and "snd (segment_loop s (Suc (Suc (Suc (Suc c)))) (duration fi) (stream_raises fi) (stream fi) []) = Done segs"
  shows "transcribe_file s c cfg fi = transcribe_file None c' cfg fi"
    and "fst (transcribe_file s c cfg fi)
      = [Acquire, SetProgress 0, SetProcessed 0, Release]
        @ fst (segment_loop s (Suc (Suc (Suc (Suc c)))) (duration fi) (stream_raises fi) (stream fi) [])
        @ fst (finish_file cfg fi segs)"
    and "snd (transcribe_file s c cfg fi) = snd (finish_file cfg fi segs)"
proof -
  from segment_loop_Done [OF assms(2), of "Suc (Suc (Suc (Suc c')))"]
  have "segment_loop None (Suc (Suc (Suc (Suc c')))) (duration fi) (stream_raises fi) (stream fi) []
    = segment_loop s (Suc (Suc (Suc (Suc c)))) (duration fi) (stream_raises fi) (stream fi) []"
    by blast
  then show "transcribe_file s c cfg fi = transcribe_file None c' cfg fi"
    by (simp only: transcribe_file_unfold)
  from assms show "fst (transcribe_file s c cfg fi)
      = [Acquire, SetProgress 0, SetProcessed 0, Release]
        @ fst (segment_loop s (Suc (Suc (Suc (Suc c)))) (duration fi) (stream_raises fi) (stream fi) [])
        @ fst (finish_file cfg fi segs)"
    and "snd (transcribe_file s c cfg fi) = snd (finish_file cfg fi segs)"
    by (simp_all add: transcribe_file_unfold)
qed

lemma transcribe_file_no_stop:
  "snd (transcribe_file None c cfg fi) = (if file_succeeds fi then Written else Failed)"
  "outputs_written (fst (transcribe_file None c cfg fi))
     = (if file_succeeds fi then [fi_stem fi @ ''.txt''] else [])"
  "errors_reported (fst (transcribe_file None c cfg fi))
     = (if file_succeeds fi then [] else [fi_name fi])"
proof -
  let ?r = "segment_loop None (Suc (Suc (Suc (Suc c)))) (duration fi) (stream_raises fi) (stream fi) []"
  have res: "snd ?r = (if stream_raises fi then Raised else Done (stream fi))"
    using segment_loop_no_stop
      [of "Suc (Suc (Suc (Suc c)))" "duration fi" "stream_raises fi" "stream fi" "[]"]
    by simp
  from segment_loop_events
    [of None "Suc (Suc (Suc (Suc c)))" "duration fi" "stream_raises fi" "stream fi" "[]"]
  have no: "outputs_written (fst ?r) = []" "errors_reported (fst ?r) = []"
    by (auto intro!: outputs_written_none errors_reported_none simp: is_check_def)
  have "snd (transcribe_file None c cfg fi) = (if file_succeeds fi then Written else Failed)
    \<and> outputs_written (fst (transcribe_file None c cfg fi))
     = (if file_succeeds fi then [fi_stem fi @ ''.txt''] else [])
    \<and> errors_reported (fst (transcribe_file None c cfg fi))
     = (if file_succeeds fi then [] else [fi_name fi])"
  proof (cases "transcribe_raises fi")
    case True
    then show ?thesis by (simp add: transcribe_file_unfold file_succeeds_def)
  next
    case nr: False
    show ?thesis
    proof (cases "stream_raises fi")
      case True
      with res have "snd ?r = Raised" by simp
      with nr True no show ?thesis
        by (simp add: transcribe_file_unfold file_succeeds_def outputs_written_append
            errors_reported_append)
    next
      case False
      with res have "snd ?r = Done (stream fi)" by simp
      with nr False no show ?thesis
        by (simp add: transcribe_file_unfold file_succeeds_def outputs_written_append
            errors_reported_append finish_file_result)
    qed
  qed
  then show "snd (transcribe_file None c cfg fi) = (if file_succeeds fi then Written else Failed)"
    and "outputs_written (fst (transcribe_file None c cfg fi))
     = (if file_succeeds fi then [fi_stem fi @ ''.txt''] else [])"
    and "errors_reported (fst (transcribe_file None c cfg fi))
     = (if file_succeeds fi then [] else [fi_name fi])"
    by blast+
qed

lemma transcribe_file_progress:
  assumes "sorted (map seg_end (stream fi))" and "\<forall>seg \<in> set (stream fi). 0 \<le> seg_end seg"
  shows "sorted (progress_writes (fst (transcribe_file s c cfg fi)))"
    and "\<forall>p \<in> set (progress_writes (fst (transcribe_file s c cfg fi))). 0 \<le> p \<and> p \<le> 98"
proof -
  let ?r = "segment_loop s (Suc (Suc (Suc (Suc c)))) (duration fi) (stream_raises fi) (stream fi) []"
  from segment_loop_progress [OF assms, of s "Suc (Suc (Suc (Suc c)))" "duration fi" "stream_raises fi" "[]"]
  have lp: "sorted (progress_writes (fst ?r))"
    "\<forall>p \<in> set (progress_writes (fst ?r)). 0 \<le> p \<and> p \<le> 95" by simp_all
  have d: "sorted (progress_writes (st_events (diarization_stage cfg fi segs)))
    \<and> (\<forall>p \<in> set (progress_writes (st_events (diarization_stage cfg fi segs))). 96 \<le> p \<and> p \<le> 98)"
    for segs
    using diarization_stage_progress [of cfg fi segs] by auto
  have "sorted (progress_writes (fst (transcribe_file s c cfg fi)))
    \<and> (\<forall>p \<in> set (progress_writes (fst (transcribe_file s c cfg fi))). 0 \<le> p \<and> p \<le> 98)"
  proof (cases s c cfg fi rule: transcribe_file_cases)
    case call_raises
    then show ?thesis by simp
  next
    case (loop_stopped loop)
    with lp show ?thesis by (auto simp: progress_writes_append)
  next
    case (loop_raised loop)
    with lp show ?thesis by (auto simp: progress_writes_append)
  next
    case (loop_done loop segs)
    with lp d [of segs] show ?thesis
      by (simp add: progress_writes_append finish_file_progress sorted_append) force
  qed
  then show "sorted (progress_writes (fst (transcribe_file s c cfg fi)))"
    and "\<forall>p \<in> set (progress_writes (fst (transcribe_file s c cfg fi))). 0 \<le> p \<and> p \<le> 98"
    by blast+
qed


section \<open>Properties of the queue\<close>

lemma file_loop_stop:
  "stop_requested s c \<Longrightarrow> file_loop s c cfg i n (fi # rest) = [CheckStop True]"
  by simp

lemma file_loop_step:
  "\<not> stop_requested s c \<Longrightarrow>
   file_loop s c cfg i n (fi # rest) =
     CheckStop False # StatusTranscribing i n (fi_name fi)
       # SetBar (py_int (real (i - 1) / real n * 100))
       # fst (transcribe_file s (Suc (Suc (Suc c))) cfg fi)
       @ SetBar (py_int (real i / real n * 100))
       # file_loop s (Suc (Suc (Suc (Suc (c + length (fst (transcribe_file s (Suc (Suc (Suc c))) cfg fi)))))))
           cfg (Suc i) n rest"
  by (simp add: Let_def)

lemma file_loop_checks:
  "each_at (\<lambda>c e. \<forall>b. e = CheckStop b \<longrightarrow> b = stop_requested s c) c
     (file_loop s c cfg i n files)"
proof (induction files arbitrary: c i)
  case Nil
  show ?case by (simp add: each_at_Nil)
next
  case (Cons fi rest)
  show ?case
  proof (cases "stop_requested s c")
    case True
    then show ?thesis by (simp add: each_at_Cons each_at_Nil)
  next
    case False
    let ?evs = "fst (transcribe_file s (Suc (Suc (Suc c))) cfg fi)"
    from Cons.IH [of "Suc (Suc (Suc (Suc (c + length ?evs))))" "Suc i"]
      transcribe_file_checks [of s "Suc (Suc (Suc c))" cfg fi] False
    show ?thesis
      by (simp only: file_loop_step [OF False]) (simp add: each_at_Cons each_at_append)
  qed
qed

lemma file_loop_begins:
  "each_at (\<lambda>c e. (\<exists>i n name. e = StatusTranscribing i n name) \<longrightarrow> c \<le> m) c
     (file_loop (Some m) c cfg i n files)"
proof (induction files arbitrary: c i)
  case Nil
  show ?case by (simp add: each_at_Nil)
next
  case (Cons fi rest)
  show ?case
  proof (cases "stop_requested (Some m) c")
    case True
    then show ?thesis by (simp add: each_at_Cons each_at_Nil)
  next
    case False
    let ?evs = "fst (transcribe_file (Some m) (Suc (Suc (Suc c))) cfg fi)"
    from False have le: "Suc c \<le> m" by (simp add: stop_requested_def)
    have "each_at (\<lambda>c e. (\<exists>i n name. e = StatusTranscribing i n name) \<longrightarrow> c \<le> m)
        (Suc (Suc (Suc c))) ?evs"
      using transcribe_file_no_begin [of "Some m" "Suc (Suc (Suc c))" cfg fi]
      by (intro each_at_set) auto
    with Cons.IH [of "Suc (Suc (Suc (Suc (c + length ?evs))))" "Suc i"] le show ?thesis
      by (simp only: file_loop_step [OF False]) (simp add: each_at_Cons each_at_append)
  qed
qed

lemma file_loop_counts:
  "count_list (file_loop s c cfg i n files) (CheckStop False)
     = length (files_begun (file_loop s c cfg i n files))
       + segments_taken (file_loop s c cfg i n files)"
proof (induction files arbitrary: c i)
  case Nil
  show ?case by simp
next
  case (Cons fi rest)
  show ?case
  proof (cases "stop_requested s c")
    case True
    then show ?thesis by simp
  next
    case False
    let ?evs = "fst (transcribe_file s (Suc (Suc (Suc c))) cfg fi)"
    have "files_begun ?evs = []"
      using transcribe_file_no_begin [of s "Suc (Suc (Suc c))" cfg fi] by (intro files_begun_none)
    with Cons.IH [of "Suc (Suc (Suc (Suc (c + length ?evs))))" "Suc i"]
      transcribe_file_counts [of s "Suc (Suc (Suc c))" cfg fi]
    show ?thesis
      by (simp only: file_loop_step [OF False])
        (simp add: files_begun_append segments_taken_append)
  qed
qed

lemma file_loop_lock: "lock_scan False (file_loop s c cfg i n files)"
proof (induction files arbitrary: c i)
  case Nil
  show ?case by simp
next
  case (Cons fi rest)
  show ?case
  proof (cases "stop_requested s c")
    case True
    then show ?thesis by simp
  next
    case False
    let ?evs = "fst (transcribe_file s (Suc (Suc (Suc c))) cfg fi)"
    have "lock_scan False (?evs @ SetBar (py_int (real i / real n * 100))
        # file_loop s (Suc (Suc (Suc (Suc (c + length ?evs))))) cfg (Suc i) n rest)"
      using Cons.IH [of "Suc (Suc (Suc (Suc (c + length ?evs))))" "Suc i"]
      by (intro lock_scan_append transcribe_file_lock) simp
    then show ?thesis by (simp only: file_loop_step [OF False]) simp
  qed
qed

lemma file_loop_no_stop:
  "files_begun (file_loop None c cfg i n files) = map fi_name files"
  "outputs_written (file_loop None c cfg i n files)
     = map (\<lambda>f. fi_stem f @ ''.txt'') (filter file_succeeds files)"
  "errors_reported (file_loop None c cfg i n files)
     = map fi_name (filter (\<lambda>f. \<not> file_succeeds f) files)"
proof -
  have "files_begun (file_loop None c cfg i n files) = map fi_name files
    \<and> outputs_written (file_loop None c cfg i n files)
       = map (\<lambda>f. fi_stem f @ ''.txt'') (filter file_succeeds files)
    \<and> errors_reported (file_loop None c cfg i n files)
       = map fi_name (filter (\<lambda>f. \<not> file_succeeds f) files)"
  proof (induction files arbitrary: c i)
    case Nil
    show ?case by simp
  next
    case (Cons fi rest)
    have ns: "\<not> stop_requested None c" by (simp add: stop_requested_None)
    let ?evs = "fst (transcribe_file None (Suc (Suc (Suc c))) cfg fi)"
    have "files_begun ?evs = []"
      using transcribe_file_no_begin [of None "Suc (Suc (Suc c))" cfg fi] by (intro files_begun_none)
    with Cons.IH [of "Suc (Suc (Suc (Suc (c + length ?evs))))" "Suc i"] show ?case
      by (simp only: file_loop_step [OF ns])
        (simp add: files_begun_append outputs_written_append errors_reported_append
          transcribe_file_no_stop)
  qed
  then show "files_begun (file_loop None c cfg i n files) = map fi_name files"
    and "outputs_written (file_loop None c cfg i n files)
     = map (\<lambda>f. fi_stem f @ ''.txt'') (filter file_succeeds files)"
    and "errors_reported (file_loop None c cfg i n files)
     = map fi_name (filter (\<lambda>f. \<not> file_succeeds f) files)"
    by blast+
qed

lemma each_at_nth: "each_at P 0 evs \<Longrightarrow> k < length evs \<Longrightarrow> P k (evs ! k)"
  by (simp add: each_at_def)

lemma process_files_checks:
  "k < length (process_files s cfg files) \<Longrightarrow> process_files s cfg files ! k = CheckStop b \<Longrightarrow>
   b = stop_requested s k"
proof -
  have "each_at (\<lambda>c e. \<forall>b. e = CheckStop b \<longrightarrow> b = stop_requested s c) 0
      (process_files s cfg files)"
    using file_loop_checks [of s 0 cfg 1 "length files" files]
    by (simp add: process_files_def each_at_append each_at_Cons each_at_Nil)
  then show "k < length (process_files s cfg files) \<Longrightarrow>
      process_files s cfg files ! k = CheckStop b \<Longrightarrow> b = stop_requested s k"
    using each_at_nth by blast
qed

lemma process_files_begins:
  "k < length (process_files (Some m) cfg files) \<Longrightarrow>
   process_files (Some m) cfg files ! k = StatusTranscribing i n name \<Longrightarrow> k \<le> m"
proof -
  have "each_at (\<lambda>c e. (\<exists>i n name. e = StatusTranscribing i n name) \<longrightarrow> c \<le> m) 0
      (process_files (Some m) cfg files)"
    using file_loop_begins [of m 0 cfg 1 "length files" files]
    by (simp add: process_files_def each_at_append each_at_Cons each_at_Nil)
  then show "k < length (process_files (Some m) cfg files) \<Longrightarrow>
      process_files (Some m) cfg files ! k = StatusTranscribing i n name \<Longrightarrow> k \<le> m"
    using each_at_nth by blast
qed

lemma process_files_counts:
  "count_list (process_files s cfg files) (CheckStop False)
     = length (files_begun (process_files s cfg files))
       + segments_taken (process_files s cfg files)"
  using file_loop_counts [of s 0 cfg 1 "length files" files]
  by (simp add: process_files_def files_begun_append segments_taken_append)

lemma process_files_lock: "lock_scan False (process_files s cfg files)"
proof -
  have "lock_scan False (file_loop s 0 cfg 1 (length files) files @ [ScheduleComplete])"
    by (intro lock_scan_append file_loop_lock) simp
  then show ?thesis by (simp add: process_files_def)
qed

section \<open>Properties of the progress value\<close>

lemma bar_writes_append: "bar_writes (xs @ ys) = bar_writes xs @ bar_writes ys"
  by (induction xs rule: bar_writes.induct) simp_all

lemma bar_writes_none: "\<forall>e \<in> set evs. \<forall>p. e \<noteq> SetBar p \<Longrightarrow> bar_writes evs = []"
  by (induction evs rule: bar_writes.induct) simp_all

lemma segment_loop_cap:
  "\<forall>p \<in> set (progress_writes (fst (segment_loop s c t r segs acc))). p \<le> 95"
proof (induction segs arbitrary: c acc)
  case Nil
  show ?case by simp
next
  case (Cons seg rest)
  show ?case
  proof (cases "stop_requested s c")
    case True
    then show ?thesis by (simp only: segment_loop_stop fst_conv) simp
  next
    case False
    from Cons.IH [of "Suc (c + length (take_segment t (acc @ [seg]) seg))" "acc @ [seg]"]
    show ?thesis
      by (simp only: segment_loop_step [OF False] fst_conv)
        (auto simp: progress_writes_append take_segment_progress)
  qed
qed

lemma transcribe_file_upper:
  "\<forall>p \<in> set (progress_writes (fst (transcribe_file s c cfg fi))). p \<le> 98"
proof -
  let ?r = "segment_loop s (Suc (Suc (Suc (Suc c)))) (duration fi) (stream_raises fi) (stream fi) []"
  from segment_loop_cap [of s "Suc (Suc (Suc (Suc c)))" "duration fi" "stream_raises fi" "stream fi" "[]"]
  have lp: "\<forall>p \<in> set (progress_writes (fst ?r)). p \<le> 98" by fastforce
  have d: "\<forall>p \<in> set (progress_writes (st_events (diarization_stage cfg fi segs))). p \<le> 98"
    for segs
    using diarization_stage_progress [of cfg fi segs] by auto
  show ?thesis
  proof (cases s c cfg fi rule: transcribe_file_cases)
    case call_raises
    then show ?thesis by simp
  next
    case (loop_stopped loop)
    with lp show ?thesis by (auto simp: progress_writes_append)
  next
    case (loop_raised loop)
    with lp show ?thesis by (auto simp: progress_writes_append)
  next
    case (loop_done loop segs)
    with lp d [of segs] show ?thesis
      by (auto simp: progress_writes_append finish_file_progress)
  qed
qed

lemma transcribe_file_Written:
  assumes "snd (transcribe_file s c cfg fi) = Written"
  shows "last (progress_writes (fst (transcribe_file s c cfg fi))) \<in> {95, 96, 98}"
    and "outputs_written (fst (transcribe_file s c cfg fi)) = [fi_stem fi @ ''.txt'']"
proof -
  have "last (progress_writes (fst (transcribe_file s c cfg fi))) \<in> {95, 96, 98}
    \<and> outputs_written (fst (transcribe_file s c cfg fi)) = [fi_stem fi @ ''.txt'']"
  proof (cases s c cfg fi rule: transcribe_file_cases)
    case call_raises
    with assms show ?thesis by simp
  next
    case (loop_stopped loop)
    with assms show ?thesis by simp
  next
    case (loop_raised loop)
    with assms show ?thesis by simp
  next
    case (loop_done loop segs)
    from loop_done assms have w: "snd (finish_file cfg fi segs) = Written" by simp
    then have ok: "open_ok fi" by (simp add: finish_file_result split: if_splits)
    from segment_loop_events
      [of s "Suc (Suc (Suc (Suc c)))" "duration fi" "stream_raises fi" "stream fi" "[]"] loop_done
    have no: "outputs_written loop = []"
      by (auto intro!: outputs_written_none simp: is_check_def)
    have "last (95 # progress_writes (st_events (diarization_stage cfg fi segs))) \<in> {95, 96, 98}"
      using diarization_stage_progress [of cfg fi segs] by auto
    with loop_done ok no show ?thesis
      by (simp add: progress_writes_append outputs_written_append finish_file_progress
          finish_file_result)
  qed
  then show "last (progress_writes (fst (transcribe_file s c cfg fi))) \<in> {95, 96, 98}"
    and "outputs_written (fst (transcribe_file s c cfg fi)) = [fi_stem fi @ ''.txt'']"
    by blast+
qed

lemma transcribe_file_no_bar:
  "\<forall>e \<in> set (fst (transcribe_file s c cfg fi)). \<forall>p. e \<noteq> SetBar p"
proof -
  have f: "\<forall>e \<in> set (fst (finish_file cfg fi segs)). \<forall>p. e \<noteq> SetBar p" for segs
    using diarization_stage_events [of cfg fi segs]
    by (auto simp: finish_file_def Let_def locked_progress_def)
  show ?thesis
  proof (cases s c cfg fi rule: transcribe_file_cases)
    case call_raises
    then show ?thesis by simp
  next
    case (loop_stopped loop)
    with segment_loop_events [of s "Suc (Suc (Suc (Suc c)))" "duration fi" "stream_raises fi" "stream fi" "[]"]
    show ?thesis by (auto simp: is_check_def)
  next
    case (loop_raised loop)
    with segment_loop_events [of s "Suc (Suc (Suc (Suc c)))" "duration fi" "stream_raises fi" "stream fi" "[]"]
    show ?thesis by (auto simp: is_check_def)
  next
    case (loop_done loop segs)
    with segment_loop_events [of s "Suc (Suc (Suc (Suc c)))" "duration fi" "stream_raises fi" "stream fi" "[]"]
      f [of segs]
    show ?thesis by (auto simp: is_check_def)
  qed
qed

lemma file_loop_upper:
  "\<forall>p \<in> set (progress_writes (file_loop s c cfg i n files)). p \<le> 98"
proof (induction files arbitrary: c i)
  case Nil
  show ?case by simp
next
  case (Cons fi rest)
  show ?case
  proof (cases "stop_requested s c")
    case True
    then show ?thesis by simp
  next
    case False
    let ?evs = "fst (transcribe_file s (Suc (Suc (Suc c))) cfg fi)"
    from Cons.IH [of "Suc (Suc (Suc (Suc (c + length ?evs))))" "Suc i"]
      transcribe_file_upper [of s "Suc (Suc (Suc c))" cfg fi]
    show ?thesis
      by (simp only: file_loop_step [OF False]) (auto simp: progress_writes_append)
  qed
qed

lemma process_files_upper:
  "\<forall>p \<in> set (progress_writes (process_files s cfg files)). p \<le> 98"
  using file_loop_upper [of s 0 cfg 1 "length files" files]
  by (simp add: process_files_def progress_writes_append)

lemma transcribe_file_stream_raises:
  assumes "\<not> transcribe_raises fi" and "stream_raises fi"
  shows "snd (transcribe_file s c cfg fi) = Failed \<or> snd (transcribe_file s c cfg fi) = Cancelled"
proof (cases s c cfg fi rule: transcribe_file_cases)
  case call_raises
  then show ?thesis by simp
next
  case (loop_stopped loop)
  then show ?thesis by simp
next
  case (loop_raised loop)
  then show ?thesis by simp
next
  case (loop_done loop segs)
  then have "snd (segment_loop s (Suc (Suc (Suc (Suc c)))) (duration fi) (stream_raises fi)
      (stream fi) []) = Done segs" by simp
  from segment_loop_Done [OF this, of 0] assms show ?thesis by simp
qed

lemma process_files_last: "last (process_files s cfg files) = ScheduleComplete"
  by (simp add: process_files_def)

lemma process_files_no_stop:
  "files_begun (process_files None cfg files) = map fi_name files"
  "outputs_written (process_files None cfg files)
     = map (\<lambda>f. fi_stem f @ ''.txt'') (filter file_succeeds files)"
  "errors_reported (process_files None cfg files)
     = map fi_name (filter (\<lambda>f. \<not> file_succeeds f) files)"
  by (simp_all add: process_files_def files_begun_append outputs_written_append
      errors_reported_append file_loop_no_stop)

section \<open>Two recordings\<close>

lemma two_segment_file_fields:
  "transcribe_raises two_segment_file = False" "stream_raises two_segment_file = False"
  "stream two_segment_file = two_segments" "duration two_segment_file = 2"
  "fi_name two_segment_file = ''talk.mp3''" "fi_stem two_segment_file = ''talk''"
  "open_ok two_segment_file = True"
  by (simp_all add: two_segment_file_def)

lemma two_segments_loop:
  "segment_loop s c 2 False two_segments [] =
     (if stop_requested s c then ([CheckStop True], Stopped)
      else if stop_requested s (c + 5) then
        ([CheckStop False, Acquire, SetProcessed 1, SetProgress 50, Release, CheckStop True],
         Stopped)
      else
        ([CheckStop False, Acquire, SetProcessed 1, SetProgress 50, Release,
          CheckStop False, Acquire, SetProcessed 2, SetProgress 95, Release],
         Done two_segments))"
proof -
  have e: "c + 5 = Suc (Suc (Suc (Suc (Suc c))))" by simp
  show ?thesis unfolding e by (simp add: two_segments_def take_segment_def Let_def)
qed

lemma two_segments_finish:
  "finish_file no_diarization two_segment_file two_segments =
     ([Acquire, SetProgress 95, Release,
       WriteOutput ''talk.txt''
         [''Hello there.'' @ [CHR 0x0A, CHR 0x0A], ''How are you?'' @ [CHR 0x0A, CHR 0x0A]]],
      Written)"
proof -
  have d: "diarization_stage no_diarization two_segment_file two_segments
    = \<lparr>st_events = [], st_segments = two_segments, st_labels = []\<rparr>"
    by (simp add: diarization_stage_def wavlm_stage_def pyannote_stage_def no_diarization_def)
  have r: "render_body False two_segments []
    = [''Hello there.'' @ [CHR 0x0A, CHR 0x0A], ''How are you?'' @ [CHR 0x0A, CHR 0x0A]]"
    by (simp add: render_body_def render_segment_def two_segments_def strip_def isspace_def)
  have t: "with_timestamps no_diarization = False" by (simp add: no_diarization_def)
  show ?thesis
    by (simp add: finish_file_def d t r two_segment_file_fields locked_progress_def)
qed

lemma two_segment_file_run:
  "transcribe_file s c no_diarization two_segment_file =
     (if stop_requested s (c + 4) then
        ([Acquire, SetProgress 0, SetProcessed 0, Release, CheckStop True], Cancelled)
      else if stop_requested s (c + 9) then
        ([Acquire, SetProgress 0, SetProcessed 0, Release,
          CheckStop False, Acquire, SetProcessed 1, SetProgress 50, Release, CheckStop True],
         Cancelled)
      else
        ([Acquire, SetProgress 0, SetProcessed 0, Release,
          CheckStop False, Acquire, SetProcessed 1, SetProgress 50, Release,
          CheckStop False, Acquire, SetProcessed 2, SetProgress 95, Release,
          Acquire, SetProgress 95, Release,
          WriteOutput ''talk.txt''
            [''Hello there.'' @ [CHR 0x0A, CHR 0x0A], ''How are you?'' @ [CHR 0x0A, CHR 0x0A]]],
         Written))"
proof -
  have e: "Suc (Suc (Suc (Suc c))) = c + 4" "Suc (Suc (Suc (Suc (Suc (Suc (Suc (Suc (Suc c)))))))) = c + 9"
    "c + 4 + 5 = c + 9"
    by simp_all
  show ?thesis
    by (simp only: transcribe_file_unfold two_segment_file_fields two_segments_loop e)
      (simp add: two_segments_finish)
qed

lemma broken_file_run:
  "transcribe_file s c cfg broken_file = ([StatusError ''noise.wav''], Failed)"
  by (simp add: transcribe_file_def broken_file_def)

lemma one_file_finish:
  "finish_file both_loaded one_file one_segment =
     ([Acquire, SetProgress 95, Release, RunWavLM, Acquire, SetProgress 96, Release,
       Acquire, SetProgress 98, Release,
       WriteOutput ''talk.txt'' [''SPEAKER_00: yes'' @ [CHR 0x0A, CHR 0x0A]]],
      Written)"
proof -
  have a: "wavlm_label (wavlm one_file) (num_speakers both_loaded) (concat (map seg_words one_segment))
       = Inr [\<lparr>w_text = '' yes'', w_start = 3 / 5, w_end = 4 / 5, w_speaker = Some ''SPEAKER_00''\<rparr>]"
    by (simp add: one_file_def both_loaded_def one_segment_words single_word_labelled)
  have ne: "concat (map seg_words one_segment) \<noteq> []"
    by (simp add: one_segment_words single_word_def)
  have w1: "wavlm_stage both_loaded one_file one_segment
    = \<lparr>st_events = [RunWavLM, Acquire, SetProgress 96, Release, Acquire, SetProgress 98, Release],
       st_segments = [SegmentWithSpeaker ''yes'' (3 / 5) (4 / 5) (Some ''SPEAKER_00'')],
       st_labels = [(0, ''SPEAKER_00'')]\<rparr>"
    using a ne
    by (simp add: wavlm_stage_def Let_def single_word_resegmented speaker_labels_of_def
        List.map_filter_def locked_progress_def SegmentWithSpeaker_def)
      (simp add: both_loaded_def)
  have d: "diarization_stage both_loaded one_file one_segment
    = \<lparr>st_events = [RunWavLM, Acquire, SetProgress 96, Release, Acquire, SetProgress 98, Release],
       st_segments = [SegmentWithSpeaker ''yes'' (3 / 5) (4 / 5) (Some ''SPEAKER_00'')],
       st_labels = [(0, ''SPEAKER_00'')]\<rparr>"
    by (simp add: diarization_stage_def w1 pyannote_stage_def)
  have r: "render_body False [SegmentWithSpeaker ''yes'' (3 / 5) (4 / 5) (Some ''SPEAKER_00'')]
      [(0, ''SPEAKER_00'')] = [''SPEAKER_00: yes'' @ [CHR 0x0A, CHR 0x0A]]"
    by (simp add: render_body_def render_segment_def SegmentWithSpeaker_def strip_def
        isspace_def)
  have t: "with_timestamps both_loaded = False" "open_ok one_file" "fi_stem one_file = ''talk''"
    by (simp_all add: both_loaded_def one_file_def)
  show ?thesis
    by (simp add: finish_file_def d t r locked_progress_def)
qed

lemma one_file_run:
  "transcribe_file None c both_loaded one_file =
     ([Acquire, SetProgress 0, SetProcessed 0, Release,
       CheckStop False, Acquire, SetProcessed 1, SetProgress 80, Release,
       Acquire, SetProgress 95, Release, RunWavLM, Acquire, SetProgress 96, Release,
       Acquire, SetProgress 98, Release,
       WriteOutput ''talk.txt'' [''SPEAKER_00: yes'' @ [CHR 0x0A, CHR 0x0A]]],
      Written)"
proof -
  have f: "transcribe_raises one_file = False" "stream_raises one_file = False"
    "stream one_file = one_segment" "duration one_file = 1"
    by (simp_all add: one_file_def)
  have l: "segment_loop None k 1 False one_segment []
    = ([CheckStop False, Acquire, SetProcessed 1, SetProgress 80, Release], Done one_segment)"
    for k
    by (simp add: one_segment_def take_segment_def Let_def stop_requested_None)
  show ?thesis
    by (simp only: transcribe_file_unfold f l) (simp add: one_file_finish)
qed

lemma stopped_late_trace:
  "process_files (Some 13) no_diarization [two_segment_file] =
     [CheckStop False, StatusTranscribing 1 1 ''talk.mp3'', SetBar 0,
      Acquire, SetProgress 0, SetProcessed 0, Release,
      CheckStop False, Acquire, SetProcessed 1, SetProgress 50, Release,
      CheckStop False, Acquire, SetProcessed 2, SetProgress 95, Release,
      Acquire, SetProgress 95, Release,
      WriteOutput ''talk.txt''
        [''Hello there.'' @ [CHR 0x0A, CHR 0x0A], ''How are you?'' @ [CHR 0x0A, CHR 0x0A]],
      SetBar 100, ScheduleComplete]"
  by (simp add: process_files_def Let_def two_segment_file_run two_segment_file_fields
      stop_requested_def py_int_def)

lemma never_stopped_trace:
  "process_files None no_diarization [two_segment_file] =
     [CheckStop False, StatusTranscribing 1 1 ''talk.mp3'', SetBar 0,
      Acquire, SetProgress 0, SetProcessed 0, Release,
      CheckStop False, Acquire, SetProcessed 1, SetProgress 50, Release,
      CheckStop False, Acquire, SetProcessed 2, SetProgress 95, Release,
      Acquire, SetProgress 95, Release,
      WriteOutput ''talk.txt''
        [''Hello there.'' @ [CHR 0x0A, CHR 0x0A], ''How are you?'' @ [CHR 0x0A, CHR 0x0A]],
      SetBar 100, ScheduleComplete]"
  by (simp add: process_files_def Let_def two_segment_file_run two_segment_file_fields
      stop_requested_def py_int_def)

lemma stopped_early_trace:
  "process_files (Some 8) no_diarization [two_segment_file, two_segment_file] =
     [CheckStop False, StatusTranscribing 1 2 ''talk.mp3'', SetBar 0,
      Acquire, SetProgress 0, SetProcessed 0, Release,
      CheckStop False, Acquire, SetProcessed 1, SetProgress 50, Release,
      CheckStop True, SetBar 50, CheckStop True, ScheduleComplete]"
  by (simp add: process_files_def Let_def two_segment_file_run two_segment_file_fields
      stop_requested_def py_int_def)

lemma failing_queue_trace:
  "process_files None no_diarization [broken_file, two_segment_file] =
     [CheckStop False, StatusTranscribing 1 2 ''noise.wav'', SetBar 0,
      StatusError ''noise.wav'', SetBar 50,
      CheckStop False, StatusTranscribing 2 2 ''talk.mp3'', SetBar 50,
      Acquire, SetProgress 0, SetProcessed 0, Release,
      CheckStop False, Acquire, SetProcessed 1, SetProgress 50, Release,
      CheckStop False, Acquire, SetProcessed 2, SetProgress 95, Release,
      Acquire, SetProgress 95, Release,
      WriteOutput ''talk.txt''
        [''Hello there.'' @ [CHR 0x0A, CHR 0x0A], ''How are you?'' @ [CHR 0x0A, CHR 0x0A]],
      SetBar 100, ScheduleComplete]"
proof -
  have n: "fi_name broken_file = ''noise.wav''" by (simp add: broken_file_def)
  show ?thesis
    by (simp add: process_files_def Let_def two_segment_file_run two_segment_file_fields
        broken_file_run n stop_requested_def py_int_def)
qed

lemma diarized_queue_trace:
  "process_files None both_loaded [one_file, one_file] =
     [CheckStop False, StatusTranscribing 1 2 ''talk.mp3'', SetBar 0,
      Acquire, SetProgress 0, SetProcessed 0, Release,
      CheckStop False, Acquire, SetProcessed 1, SetProgress 80, Release,
      Acquire, SetProgress 95, Release, RunWavLM, Acquire, SetProgress 96, Release,
      Acquire, SetProgress 98, Release,
      WriteOutput ''talk.txt'' [''SPEAKER_00: yes'' @ [CHR 0x0A, CHR 0x0A]], SetBar 50,
      CheckStop False, StatusTranscribing 2 2 ''talk.mp3'', SetBar 50,
      Acquire, SetProgress 0, SetProcessed 0, Release,
      CheckStop False, Acquire, SetProcessed 1, SetProgress 80, Release,
      Acquire, SetProgress 95, Release, RunWavLM, Acquire, SetProgress 96, Release,
      Acquire, SetProgress 98, Release,
      WriteOutput ''talk.txt'' [''SPEAKER_00: yes'' @ [CHR 0x0A, CHR 0x0A]], SetBar 100,
      ScheduleComplete]"
proof -
  have n: "fi_name one_file = ''talk.mp3''" by (simp add: one_file_def)
  show ?thesis
    by (simp add: process_files_def Let_def one_file_run n stop_requested_def py_int_def)
qed

end
